theory Spec2Isabelle
  imports Main "HOL-Library.Sublist"
begin

section \<open>WebSPS: an instruction-list controller compiled to JavaScript\<close>

text \<open>
  The development follows \<^verbatim>\<open>src/WebSPS.js\<close>. The class \<^verbatim>\<open>SPS\<close> compiles
  instruction-list (IL) text into a JavaScript string (\<^verbatim>\<open>generateCodeStructure\<close>,
  \<^verbatim>\<open>generateJSCode\<close>, \<^verbatim>\<open>loadCode\<close>) and runs that string with \<^verbatim>\<open>eval\<close> on
  every scan (\<^verbatim>\<open>#SPSRuntime\<close>).

  Conventions of the model.
  \<^item> IL text is a \<^typ>\<open>string\<close> of 8-bit characters; the model is exact for ASCII text
    (\<^verbatim>\<open>toUpperCase\<close> maps a..z only). Any other character makes its piece of the
    text an unknown one here and in JavaScript alike; only the text of the message
    reported for it can differ.
  \<^item> A register holds \<^verbatim>\<open>undefined\<close>, a boolean or an integral number.
  \<^item> Numbers are integers of any size; JavaScript agrees for operand numbers below
    \<open>2^53\<close>, which it reads and prints exactly, and rounds larger ones. Statements
    about the index an operand names are made for operand numbers below \<open>2^53\<close>.
  \<^item> The error callback is the list of messages it received, in order.
  \<^item> A method returns its JavaScript return value (or the exception it throws) together
    with the updated object.
\<close>

subsection \<open>Values and register banks\<close>

datatype jsval = JUndefined | JBool bool | JNum int

datatype jserror = SyntaxError | TypeError | ReferenceError

datatype bank = BankE | BankA | BankM

text \<open>
  A JavaScript array: the elements at the array indices \<open>0 ..< length\<close> (a hole reads
  as \<^verbatim>\<open>undefined\<close>), and the properties stored under keys that are not array
  indices (negative numbers, and numbers from \<open>2^32 - 1\<close> on), latest first.
\<close>

record jsarray =
  elems :: "jsval list"
  props :: "(int \<times> jsval) list"

definition new_Array_fill0 :: "nat \<Rightarrow> jsarray" where
  "new_Array_fill0 n = \<lparr>elems = replicate n (JNum 0), props = []\<rparr>"

definition arr_get :: "jsarray \<Rightarrow> int \<Rightarrow> jsval" where
  "arr_get a i =
     (if 0 \<le> i \<and> nat i < length (elems a) then elems a ! nat i
      else (case map_of (props a) i of Some v \<Rightarrow> v | None \<Rightarrow> JUndefined))"

definition arr_set :: "jsarray \<Rightarrow> int \<Rightarrow> jsval \<Rightarrow> jsarray" where
  "arr_set a i v =
     (if 0 \<le> i \<and> i < 4294967295 then
        (if nat i < length (elems a) then a\<lparr>elems := (elems a)[nat i := v]\<rparr>
         else a\<lparr>elems := elems a @ replicate (nat i - length (elems a)) JUndefined @ [v]\<rparr>)
      else a\<lparr>props := (i, v) # props a\<rparr>)"

definition arr_fill0 :: "jsarray \<Rightarrow> jsarray" where
  "arr_fill0 a = a\<lparr>elems := replicate (length (elems a)) (JNum 0)\<rparr>"

text \<open>Reading a caller-supplied array at a position: past its end the read is \<^verbatim>\<open>undefined\<close>.\<close>

definition arg_get :: "jsval list \<Rightarrow> nat \<Rightarrow> jsval" where
  "arg_get xs i = (if i < length xs then xs ! i else JUndefined)"

subsection \<open>Text helpers\<close>

definition toUpperCase_char :: "char \<Rightarrow> char" where
  "toUpperCase_char c =
     (case map_of (zip ''abcdefghijklmnopqrstuvwxyz'' ''ABCDEFGHIJKLMNOPQRSTUVWXYZ'') c of
        Some u \<Rightarrow> u | None \<Rightarrow> c)"

definition toUpperCase :: "string \<Rightarrow> string" where
  "toUpperCase s = map toUpperCase_char s"

definition is_digit :: "char \<Rightarrow> bool" where
  "is_digit c = (c \<in> set ''0123456789'')"

definition digit_val :: "char \<Rightarrow> nat" where
  "digit_val c = of_char c - 48"

definition digit_char :: "nat \<Rightarrow> char" where
  "digit_char n = ''0123456789'' ! n"

text \<open>\<^verbatim>\<open>parseInt\<close> on the digits of an operand (the classifier lets only digits through).\<close>

definition parseInt :: "string \<Rightarrow> int" where
  "parseInt ds = int (foldl (\<lambda>n c. 10 * n + digit_val c) 0 (takeWhile is_digit ds))"

text \<open>A number appended to a string: its decimal digits (exact below \<open>2^53\<close>).\<close>

fun show_nat :: "nat \<Rightarrow> string" where
  "show_nat n = (if n < 10 then [digit_char n] else show_nat (n div 10) @ [digit_char (n mod 10)])"

definition show_int :: "int \<Rightarrow> string" where
  "show_int i = (if i < 0 then CHR ''-'' # show_nat (nat (- i)) else show_nat (nat i))"

text \<open>The characters the regular expression class \<^verbatim>\<open>\s\<close> and \<^verbatim>\<open>trim\<close> treat as white space.\<close>

definition is_js_space :: "char \<Rightarrow> bool" where
  "is_js_space c = (c \<in> set [CHR 0x09, CHR 0x0A, CHR 0x0B, CHR 0x0C, CHR 0x0D, CHR '' '', CHR 0xA0])"

definition is_line_terminator :: "char \<Rightarrow> bool" where
  "is_line_terminator c = (c = CHR 0x0A \<or> c = CHR 0x0D)"

definition is_bracket_char :: "char \<Rightarrow> bool" where
  "is_bracket_char c = (c \<in> set ''(){}[]'')"

definition trim :: "string \<Rightarrow> string" where
  "trim s = rev (dropWhile is_js_space (rev (dropWhile is_js_space s)))"

subsection \<open>The lexer and classifier: \<^verbatim>\<open>generateCodeStructure\<close>\<close>

text \<open>\<^verbatim>\<open>CodeInput.replace(/\/\/.*$/gm, "")\<close>: the flag says whether a comment is open.\<close>

fun remove_comments :: "bool \<Rightarrow> string \<Rightarrow> string" where
  "remove_comments _ [] = []"
| "remove_comments True (c # cs) =
     (if is_line_terminator c then c # remove_comments False cs else remove_comments True cs)"
| "remove_comments False [c] = [c]"
| "remove_comments False (c # d # cs) =
     (if c = CHR ''/'' \<and> d = CHR ''/'' then remove_comments True cs
      else c # remove_comments False (d # cs))"

text \<open>
  \<^verbatim>\<open>CodeInput.split(/([\s\t\n(){}\[\]])/)\<close>: the pieces between separators, with every
  separator kept as a piece of its own (the capture group).
\<close>

fun split_parts :: "string \<Rightarrow> string \<Rightarrow> string list" where
  "split_parts cur [] = [cur]"
| "split_parts cur (c # cs) =
     (if is_js_space c \<or> is_bracket_char c then cur # [c] # split_parts [] cs
      else split_parts (cur @ [c]) cs)"

definition keep_part :: "string \<Rightarrow> bool" where
  "keep_part part = (length (trim part) > 0 \<or> list_ex is_bracket_char part)"

record command =
  type :: nat
  instruction :: string
  blockNumber :: nat

definition validlogicalOperations :: "string list" where
  "validlogicalOperations = [''U'', ''O'', ''X'', ''NOT'', ''UN'', ''ON'']"

definition validInstructions :: "string list" where
  "validInstructions = [''='', ''S'', ''R'']"

definition validBrackets :: "string list" where
  "validBrackets = [''('', '')'']"

text \<open>\<^verbatim>\<open>^(A|E|M)\d+$\<close>\<close>

definition validOperandsRegex :: "string \<Rightarrow> bool" where
  "validOperandsRegex s =
     (case s of [] \<Rightarrow> False
      | b # ds \<Rightarrow> b \<in> set ''AEM'' \<and> ds \<noteq> [] \<and> list_all is_digit ds)"

record lex_state =
  commandArray :: "command list"
  BracketCount :: int
  invalidCommand :: bool
  lex_errors :: "string list"

definition push_command :: "nat \<Rightarrow> string \<Rightarrow> lex_state \<Rightarrow> lex_state" where
  "push_command t codePart st =
     st\<lparr>commandArray := commandArray st @
          [\<lparr>type = t, instruction = codePart, blockNumber = length (commandArray st)\<rparr>]\<rparr>"

definition classify_part :: "lex_state \<Rightarrow> string \<Rightarrow> lex_state" where
  "classify_part st codePart =
     (if codePart \<in> set validlogicalOperations then push_command 1 codePart st
      else if codePart \<in> set validInstructions then push_command 2 codePart st
      else if validOperandsRegex codePart then push_command 3 codePart st
      else if codePart \<in> set validBrackets then
        push_command 4 codePart
          (st\<lparr>BracketCount := (if codePart = ''('' then BracketCount st + 1 else BracketCount st - 1)\<rparr>)
      else st\<lparr>lex_errors := lex_errors st @
                 [''generateCodeStructure >> Unknown command or operand found: '' @ codePart],
              invalidCommand := True\<rparr>)"

definition codeParts_of :: "string \<Rightarrow> string list" where
  "codeParts_of CodeInput =
     filter keep_part (split_parts [] (remove_comments False (toUpperCase CodeInput)))"

definition check_brackets :: "lex_state \<Rightarrow> lex_state" where
  "check_brackets st =
     (if BracketCount st \<noteq> 0 then
        st\<lparr>lex_errors := lex_errors st @ [''generateCodeStructure >> Invalid bracket number''],
           invalidCommand := True\<rparr>
      else st)"

definition lex_network :: "string \<Rightarrow> lex_state" where
  "lex_network CodeInput =
     check_brackets
       (foldl classify_part
          \<lparr>commandArray = [], BracketCount = 0, invalidCommand = False, lex_errors = []\<rparr>
          (codeParts_of CodeInput))"

text \<open>The result is \<^verbatim>\<open>null\<close> (\<open>None\<close>) or the command array, with the messages reported.\<close>

definition generateCodeStructure :: "string \<Rightarrow> command list option \<times> string list" where
  "generateCodeStructure CodeInput =
     (let st = lex_network CodeInput in
      if invalidCommand st then (None, lex_errors st)
      else (Some (commandArray st @
                  [\<lparr>type = 6, instruction = '';'', blockNumber = length (commandArray st)\<rparr>]),
            lex_errors st))"

subsection \<open>The code generator: \<^verbatim>\<open>generateJSCode\<close>\<close>

text \<open>
  The closure variables of \<^verbatim>\<open>generateJSCode\<close> (the variable \<^verbatim>\<open>NOT\<close> is never read or
  written and is left out), and the messages reported so far.
\<close>

record gen_state =
  JSCode :: string
  lastInstruction :: string
  isNewBlock :: bool
  openIfBlock :: bool
  gen_errors :: "string list"

definition emit :: "string \<Rightarrow> gen_state \<Rightarrow> gen_state" where
  "emit s st = st\<lparr>JSCode := JSCode st @ s\<rparr>"

definition report :: "string \<Rightarrow> gen_state \<Rightarrow> gen_state" where
  "report msg st = st\<lparr>gen_errors := gen_errors st @ [msg]\<rparr>"

text \<open>\<^verbatim>\<open>"this.#" + slicedCommand[0] + "[" + slicedCommand[1] + "]"\<close>\<close>

definition operand_ref :: "command \<Rightarrow> string" where
  "operand_ref command =
     ''this.#'' @ take 1 (instruction command) @ ''['' @
     show_int (parseInt (drop 1 (instruction command)) - 1) @ '']''"

definition close_block :: "gen_state \<Rightarrow> gen_state" where
  "close_block st = st\<lparr>lastInstruction := [], openIfBlock := False, isNewBlock := True\<rparr>"

definition gen_step :: "gen_state \<Rightarrow> command \<Rightarrow> gen_state" where
  "gen_step st command =
     (if type command = 6 then emit (''; // End of Network'' @ [CHR 0x0A]) st
      else if isNewBlock st then
        (if type command = 1 then
           emit (if instruction command = ''NOT'' then ''if( !'' else ''if( '')
             (st\<lparr>openIfBlock := True, isNewBlock := False\<rparr>)
         else if type command = 2 then
           (if instruction command = ''S'' then st\<lparr>lastInstruction := ''S'', isNewBlock := False\<rparr>
            else if instruction command = ''R'' then st\<lparr>lastInstruction := ''R'', isNewBlock := False\<rparr>
            else report (''generateJSCode >> Missing logical Operand before =: '' @ instruction command) st)
         else if type command = 4 then
           report (''generateJSCode >> Bracket without logical Operand: '' @ instruction command) st
         else report (''generateJSCode >> Not valid as first command: '' @ instruction command) st)
      else if type command = 1 then
        (if instruction command = ''U'' then emit '' && '' st
         else if instruction command = ''O'' then emit '' || '' st
         else if instruction command = ''X'' then emit '' !=='' st
         else if instruction command = ''NOT'' then emit '' !'' st
         else if instruction command = ''UN'' then emit '' && !'' st
         else if instruction command = ''ON'' then emit '' || !'' st
         else report (''generateJSCode >> Unknown logical Operant: '' @ instruction command) st)
      else if type command = 2 then
        (if instruction command = ''S'' then st\<lparr>lastInstruction := ''S''\<rparr>
         else if instruction command = ''R'' then st\<lparr>lastInstruction := ''R''\<rparr>
         else st\<lparr>lastInstruction := ''=''\<rparr>)
      else if type command = 3 then
        (if openIfBlock st then
           (if lastInstruction st = ''S'' then
              emit ('') { '' @ operand_ref command @ '' = true; } '' @ [CHR 0x0A]) (close_block st)
            else if lastInstruction st = ''R'' then
              emit ('') { '' @ operand_ref command @ '' = false; }'' @ [CHR 0x0A]) (close_block st)
            else if lastInstruction st = ''='' then
              emit ('') { '' @ operand_ref command @ '' = true; } else { '' @
                    operand_ref command @ '' = false; }'' @ [CHR 0x0A]) (close_block st)
            else emit (operand_ref command) st)
         else
           (if lastInstruction st = ''S'' then
              (emit (operand_ref command @ '' = true; '') (st\<lparr>lastInstruction := []\<rparr>))\<lparr>isNewBlock := True\<rparr>
            else if lastInstruction st = ''R'' then
              (emit (operand_ref command @ '' = false; '') (st\<lparr>lastInstruction := []\<rparr>))\<lparr>isNewBlock := True\<rparr>
            else report (''generateJSCode >> Missing logical Operant before =: '' @ instruction command) st))
      else if type command = 4 then
        (if openIfBlock st then emit (if instruction command = ''('' then '' ( '' else '' ) '') st
         else st)
      else st)"

definition gen_init :: gen_state where
  "gen_init = \<lparr>JSCode = [], lastInstruction = [], isNewBlock = True, openIfBlock = False, gen_errors = []\<rparr>"

definition gen_run :: "command list \<Rightarrow> gen_state" where
  "gen_run cmds = foldl gen_step gen_init cmds"

text \<open>The generated string, with the messages reported while generating it.\<close>

definition generateJSCode :: "command list \<Rightarrow> string \<times> string list" where
  "generateJSCode cmds = (JSCode (gen_run cmds), gen_errors (gen_run cmds))"

subsection \<open>The controller object and \<^verbatim>\<open>loadCode\<close>\<close>

datatype code_input = Text string | Networks "string list"

text \<open>
  The private fields of an \<^verbatim>\<open>SPS\<close> object, then what lies outside them: the public
  properties \<^verbatim>\<open>codeInput\<close> and \<^verbatim>\<open>dataReady\<close> that the methods create on \<^verbatim>\<open>this\<close>,
  the binding \<^verbatim>\<open>dataReady\<close> of the global scope (\<open>None\<close>: not declared), and the
  host's table of running interval timers (handle and delay).
\<close>

record sps =
  SPSCode :: "string option"
  state :: nat
  dataReady :: bool
  runtimeTimer :: "nat option"
  E :: jsarray
  A :: jsarray
  M :: jsarray
  RuntimeCounter :: nat
  SPSCycleTime :: int
  this_codeInput :: "code_input option"
  this_dataReady :: "jsval option"
  global_dataReady :: "jsval option"
  host_intervals :: "(nat \<times> int) list"

definition SPS_new :: "nat \<Rightarrow> nat \<Rightarrow> nat \<Rightarrow> sps" where
  "SPS_new Inputs Outputs Flags =
     \<lparr>SPSCode = None, state = 0, dataReady = False, runtimeTimer = None,
      E = (if Inputs > 256 then new_Array_fill0 256 else new_Array_fill0 Inputs),
      A = (if Outputs > 256 then new_Array_fill0 256 else new_Array_fill0 Outputs),
      M = (if Flags > 256 then new_Array_fill0 256 else new_Array_fill0 Flags),
      RuntimeCounter = 0, SPSCycleTime = 10,
      this_codeInput = None, this_dataReady = None, global_dataReady = None,
      host_intervals = []\<rparr>"

text \<open>
  The \<^verbatim>\<open>flatMap\<close> over the networks: the command arrays of the networks that lexed,
  concatenated in order; whether one of them failed; and all messages reported.
\<close>

record load_acc =
  acc_commands :: "command list"
  acc_invalid :: bool
  acc_errors :: "string list"

definition load_network :: "load_acc \<Rightarrow> string \<Rightarrow> load_acc" where
  "load_network acc element =
     (case generateCodeStructure element of
        (Some ret, errs) \<Rightarrow> acc\<lparr>acc_commands := acc_commands acc @ ret, acc_errors := acc_errors acc @ errs\<rparr>
      | (None, errs) \<Rightarrow> acc\<lparr>acc_invalid := True, acc_errors := acc_errors acc @ errs\<rparr>)"

definition load_networks :: "string list \<Rightarrow> load_acc" where
  "load_networks nets = foldl load_network \<lparr>acc_commands = [], acc_invalid = False, acc_errors = []\<rparr> nets"

text \<open>\<^verbatim>\<open>codeArray\<close>, \<^verbatim>\<open>invalidCommand\<close> and the messages, for either kind of input.\<close>

definition codeArray_of :: "code_input \<Rightarrow> command list option \<times> bool \<times> string list" where
  "codeArray_of ImputCode =
     (case ImputCode of
        Networks nets \<Rightarrow>
          (Some (acc_commands (load_networks nets)), acc_invalid (load_networks nets),
           acc_errors (load_networks nets))
      | Text t \<Rightarrow> (fst (generateCodeStructure t), False, snd (generateCodeStructure t)))"

text \<open>
  \<^verbatim>\<open>loadCode\<close>: the return value, the messages the error callback received, and the
  object afterwards.
\<close>

definition loadCode :: "code_input \<Rightarrow> sps \<Rightarrow> int \<times> string list \<times> sps" where
  "loadCode ImputCode s =
     (case codeArray_of ImputCode of
        (Some codeArray, invalid, errs) \<Rightarrow>
          if length codeArray > 0 \<and> \<not> invalid then
            (0, errs @ snd (generateJSCode codeArray),
             s\<lparr>this_codeInput := Some ImputCode, SPSCode := Some (fst (generateJSCode codeArray))\<rparr>)
          else (- 1, errs, s\<lparr>this_codeInput := Some ImputCode, SPSCode := Some []\<rparr>)
      | (None, invalid, errs) \<Rightarrow>
          (- 1, errs, s\<lparr>this_codeInput := Some ImputCode, SPSCode := Some []\<rparr>))"

subsection \<open>The generated JavaScript: tokens\<close>

text \<open>
  \<^verbatim>\<open>#SPSRuntime\<close> hands the generated string to \<^verbatim>\<open>eval\<close>. The evaluator below
  implements the ECMAScript grammar and semantics for the vocabulary the generator
  emits: \<^verbatim>\<open>if\<close>/\<^verbatim>\<open>else\<close>, blocks, the empty statement, assignments of
  \<^verbatim>\<open>true\<close>/\<^verbatim>\<open>false\<close> to \<^verbatim>\<open>this.#X[n]\<close>, expression statements, and expressions built from
  \<^verbatim>\<open>this.#X[n]\<close>, \<^verbatim>\<open>!\<close>, \<^verbatim>\<open>!==\<close>, \<^verbatim>\<open>&&\<close>, \<^verbatim>\<open>||\<close>, parentheses and calls.
  A string it cannot read is a \<^verbatim>\<open>SyntaxError\<close>.
\<close>

datatype tok =
    TIf | TElse | TTrue | TFalse | TThis | TDot | TPriv bank | TLBrk | TRBrk | TMinus | TNum nat
  | TLP | TRP | TLB | TRB | TNot | TAnd | TOr | TNeq | TAssign | TSemi

text \<open>The fixed lexemes; \<^verbatim>\<open>!==\<close> stands before \<^verbatim>\<open>!\<close> so that the longer one wins.\<close>

definition lexemes :: "(string \<times> tok) list" where
  "lexemes =
     [(''if'', TIf), (''else'', TElse), (''true'', TTrue), (''false'', TFalse), (''this'', TThis),
      (''.'', TDot), (''#E'', TPriv BankE), (''#A'', TPriv BankA), (''#M'', TPriv BankM),
      (''['', TLBrk), ('']'', TRBrk), (''-'', TMinus),
      (''('', TLP), ('')'', TRP), (''{'', TLB), (''}'', TRB),
      (''!=='', TNeq), (''!'', TNot), (''&&'', TAnd), (''||'', TOr), (''='', TAssign), ('';'', TSemi)]"

definition cons_tok :: "tok \<Rightarrow> tok list option \<Rightarrow> tok list option" where
  "cons_tok t r = map_option ((#) t) r"

definition parseNat :: "string \<Rightarrow> nat" where
  "parseNat ds = foldl (\<lambda>n c. 10 * n + digit_val c) 0 ds"

function jslex :: "string \<Rightarrow> tok list option" where
  "jslex [] = Some []"
| "jslex (c # cs) =
     (if is_js_space c then jslex cs
      else if prefix ''//'' (c # cs) then jslex (dropWhile (\<lambda>x. \<not> is_line_terminator x) cs)
      else if is_digit c then
        cons_tok (TNum (parseNat (takeWhile is_digit (c # cs)))) (jslex (dropWhile is_digit cs))
      else (case find (\<lambda>(p, t). prefix p (c # cs)) lexemes of
              Some (p, t) \<Rightarrow> cons_tok t (jslex (drop (length p - 1) cs))
            | None \<Rightarrow> None))"
  by pat_completeness auto
termination
  by (relation "measure length") (auto intro: le_imp_less_Suc length_dropWhile_le)


subsection \<open>The generated JavaScript: syntax trees and parser\<close>

datatype binop = OpOr | OpAnd | OpNeq

datatype expr = ERef bank int | ENot expr | EBin binop expr expr | ECall expr "expr option"

text \<open>
  Statements: the empty statement, the assignment of \<^verbatim>\<open>true\<close> or \<^verbatim>\<open>false\<close> to a
  register, an expression followed by a semicolon, \<^verbatim>\<open>if\<close>, and the block. An \<^verbatim>\<open>if\<close>
  without \<^verbatim>\<open>else\<close> has the empty statement as its second branch; a block is the
  sequence of its statements, closed by the empty statement.
\<close>

datatype stmt = SEmpty | SAssign bank int bool | SExpr expr | SIf expr stmt stmt | SSeq stmt stmt

text \<open>The next token must be the given one.\<close>

definition expect :: "tok \<Rightarrow> tok list \<Rightarrow> tok list option" where
  "expect t ts = (case ts of [] \<Rightarrow> None | x # r \<Rightarrow> if x = t then Some r else None)"

lemma expect_Some_iff [simp]: "expect t ts = Some r \<longleftrightarrow> ts = t # r"
  by (auto simp: expect_def split: list.splits)

lemma expect_None_iff: "expect t ts = None \<longleftrightarrow> (ts = [] \<or> hd ts \<noteq> t)"
  by (auto simp: expect_def split: list.splits)

lemma expect_Nil [simp]: "expect t [] = None"
  by (simp add: expect_def)

lemma expect_Cons [simp]: "expect t (x # r) = (if x = t then Some r else None)"
  by (simp add: expect_def)

text \<open>A register reference \<^verbatim>\<open>this.#X[n]\<close> or \<^verbatim>\<open>this.#X[-n]\<close>.\<close>

definition priv_bank :: "tok \<Rightarrow> bank option" where
  "priv_bank t = (case t of TPriv b \<Rightarrow> Some b | _ \<Rightarrow> None)"

definition num_val :: "tok \<Rightarrow> nat option" where
  "num_val t = (case t of TNum n \<Rightarrow> Some n | _ \<Rightarrow> None)"

definition p_index :: "tok list \<Rightarrow> (int \<times> tok list) option" where
  "p_index ts =
     (case ts of
        [] \<Rightarrow> None
      | t # r \<Rightarrow>
          if t = TMinus then
            (case r of [] \<Rightarrow> None | u # r' \<Rightarrow> map_option (\<lambda>n. (- int n, r')) (num_val u))
          else map_option (\<lambda>n. (int n, r)) (num_val t))"

definition p_ref :: "tok list \<Rightarrow> ((bank \<times> int) \<times> tok list) option" where
  "p_ref ts =
     (case expect TThis ts of None \<Rightarrow> None | Some r1 \<Rightarrow>
      (case expect TDot r1 of None \<Rightarrow> None | Some r2 \<Rightarrow>
       (case r2 of [] \<Rightarrow> None | t # r3 \<Rightarrow>
        (case priv_bank t of None \<Rightarrow> None | Some b \<Rightarrow>
         (case expect TLBrk r3 of None \<Rightarrow> None | Some r4 \<Rightarrow>
          (case p_index r4 of None \<Rightarrow> None | Some (i, r5) \<Rightarrow>
           (case expect TRBrk r5 of None \<Rightarrow> None | Some r6 \<Rightarrow> Some ((b, i), r6))))))))"

text \<open>
  Binary operators by precedence level: 3 is \<^verbatim>\<open>||\<close>, 2 is \<^verbatim>\<open>&&\<close>, 1 is \<^verbatim>\<open>!==\<close>;
  level 0 is a unary expression. \<open>p_bin l\<close> reads an expression of level \<open>l\<close>,
  \<open>p_tail l lhs\<close> the operators of that level that follow (left-associative),
  \<open>p_unary\<close> the prefix \<^verbatim>\<open>!\<close> and the primary expression, \<open>p_calls f\<close> the
  argument lists that follow it. Each result is the tree and the tokens left over.
  The length tests guard the recursion; they never fail (\<open>p_length\<close> below).
\<close>

definition op_at :: "nat \<Rightarrow> tok \<Rightarrow> binop option" where
  "op_at l t =
     (if l = 3 \<and> t = TOr then Some OpOr
      else if l = 2 \<and> t = TAnd then Some OpAnd
      else if l = 1 \<and> t = TNeq then Some OpNeq
      else None)"

function p_bin :: "nat \<Rightarrow> tok list \<Rightarrow> (expr \<times> tok list) option"
  and p_tail :: "nat \<Rightarrow> expr \<Rightarrow> tok list \<Rightarrow> (expr \<times> tok list) option"
  and p_unary :: "tok list \<Rightarrow> (expr \<times> tok list) option"
  and p_calls :: "expr \<Rightarrow> tok list \<Rightarrow> (expr \<times> tok list) option"
where
  "p_bin l ts =
     (if l = 0 then p_unary ts
      else (case p_bin (l - 1) ts of
              None \<Rightarrow> None
            | Some (e, r) \<Rightarrow> if length r \<le> length ts then p_tail l e r else None))"
| "p_tail l lhs ts =
     (case ts of
        [] \<Rightarrow> Some (lhs, [])
      | t # ts' \<Rightarrow>
          (case op_at l t of
             None \<Rightarrow> Some (lhs, ts)
           | Some bop \<Rightarrow>
               (case p_bin (l - 1) ts' of
                  None \<Rightarrow> None
                | Some (e, r) \<Rightarrow>
                    if length r \<le> length ts' then p_tail l (EBin bop lhs e) r else None)))"
| "p_unary ts =
     (case ts of
        [] \<Rightarrow> None
      | t # ts' \<Rightarrow>
          if t = TNot then
            (case p_unary ts' of None \<Rightarrow> None | Some (e, r) \<Rightarrow> Some (ENot e, r))
          else if t = TLP then
            (case p_bin 3 ts' of
               None \<Rightarrow> None
             | Some (e, r0) \<Rightarrow>
                 (case expect TRP r0 of
                    None \<Rightarrow> None
                  | Some r \<Rightarrow> if length r \<le> length ts' then p_calls e r else None))
          else
            (case p_ref ts of
               None \<Rightarrow> None
             | Some ((b, i), r) \<Rightarrow>
                 if length r < length ts then p_calls (ERef b i) r else None))"
| "p_calls f ts =
     (case expect TLP ts of
        None \<Rightarrow> Some (f, ts)
      | Some ts' \<Rightarrow>
          (case expect TRP ts' of
             Some r \<Rightarrow> p_calls (ECall f None) r
           | None \<Rightarrow>
               (case p_bin 3 ts' of
                  None \<Rightarrow> None
                | Some (a, r0) \<Rightarrow>
                    (case expect TRP r0 of
                       None \<Rightarrow> None
                     | Some r \<Rightarrow>
                         if length r \<le> length ts' then p_calls (ECall f (Some a)) r
                         else None))))"
  by pat_completeness auto
termination
  by lexicographic_order

text \<open>
  Statements, blocks (after the opening brace) and the whole program. A statement that
  starts with a register reference and \<^verbatim>\<open>=\<close> is an assignment; the generator writes
  \<^verbatim>\<open>true;\<close> or \<^verbatim>\<open>false;\<close> after it. Any other statement that is neither empty, a
  block nor an \<^verbatim>\<open>if\<close> is an expression closed by a semicolon. No semicolon is
  ever inserted automatically into a program that \<^verbatim>\<open>loadCode\<close> installs: it ends
  with the semicolon and comment of its last network, its blocks close after a
  semicolon, and the generator ends a line only after a closing brace or after such a
  comment.
\<close>

definition p_target :: "tok list \<Rightarrow> ((bank \<times> int) \<times> tok list) option" where
  "p_target ts =
     (case p_ref ts of None \<Rightarrow> None
      | Some (x, r1) \<Rightarrow> (case expect TAssign r1 of None \<Rightarrow> None | Some r2 \<Rightarrow> Some (x, r2)))"

function p_stmt :: "tok list \<Rightarrow> (stmt \<times> tok list) option"
  and p_block :: "tok list \<Rightarrow> (stmt \<times> tok list) option"
where
  "p_stmt ts =
     (case ts of
        [] \<Rightarrow> None
      | t # ts' \<Rightarrow>
          if t = TSemi then Some (SEmpty, ts')
          else if t = TLB then p_block ts'
          else if t = TIf then
            (case expect TLP ts' of None \<Rightarrow> None | Some r0 \<Rightarrow>
             (case p_bin 3 r0 of None \<Rightarrow> None | Some (c, r1) \<Rightarrow>
              (case expect TRP r1 of None \<Rightarrow> None | Some r2 \<Rightarrow>
               if length r2 < length ts then
                 (case p_stmt r2 of None \<Rightarrow> None | Some (s1, r3) \<Rightarrow>
                  (case expect TElse r3 of
                     None \<Rightarrow> Some (SIf c s1 SEmpty, r3)
                   | Some r4 \<Rightarrow>
                       if length r4 < length ts then
                         (case p_stmt r4 of None \<Rightarrow> None
                          | Some (s2, r5) \<Rightarrow> Some (SIf c s1 s2, r5))
                       else None))
               else None)))
          else
            (case p_target ts of
               Some ((b, i), r2) \<Rightarrow>
                 (case r2 of [] \<Rightarrow> None | v # r3 \<Rightarrow>
                  (case expect TSemi r3 of None \<Rightarrow> None | Some r4 \<Rightarrow>
                   if v = TTrue then Some (SAssign b i True, r4)
                   else if v = TFalse then Some (SAssign b i False, r4)
                   else None))
             | None \<Rightarrow>
                 (case p_bin 3 ts of None \<Rightarrow> None | Some (e, r) \<Rightarrow>
                  (case expect TSemi r of None \<Rightarrow> None | Some r' \<Rightarrow> Some (SExpr e, r')))))"
| "p_block ts =
     (case expect TRB ts of
        Some r \<Rightarrow> Some (SEmpty, r)
      | None \<Rightarrow>
          (case p_stmt ts of None \<Rightarrow> None | Some (s, r) \<Rightarrow>
           if length r < length ts then
             (case p_block r of None \<Rightarrow> None | Some (ss, r') \<Rightarrow> Some (SSeq s ss, r'))
           else None))"
  by pat_completeness auto
termination
  by lexicographic_order

function p_program :: "tok list \<Rightarrow> stmt list option" where
  "p_program ts =
     (if ts = [] then Some []
      else (case p_stmt ts of None \<Rightarrow> None | Some (s, r) \<Rightarrow>
            if length r < length ts then map_option ((#) s) (p_program r) else None))"
  by pat_completeness auto
termination
  by lexicographic_order

subsection \<open>The generated JavaScript: evaluation\<close>

fun truthy :: "jsval \<Rightarrow> bool" where
  "truthy JUndefined = False"
| "truthy (JBool b) = b"
| "truthy (JNum n) = (n \<noteq> 0)"

fun get_bank :: "bank \<Rightarrow> sps \<Rightarrow> jsarray" where
  "get_bank BankE s = E s"
| "get_bank BankA s = A s"
| "get_bank BankM s = M s"

fun set_bank :: "bank \<Rightarrow> jsarray \<Rightarrow> sps \<Rightarrow> sps" where
  "set_bank BankE a s = s\<lparr>E := a\<rparr>"
| "set_bank BankA a s = s\<lparr>A := a\<rparr>"
| "set_bank BankM a s = s\<lparr>M := a\<rparr>"

fun eval_expr :: "expr \<Rightarrow> sps \<Rightarrow> jserror + jsval" where
  "eval_expr (ERef b i) s = Inr (arr_get (get_bank b s) i)"
| "eval_expr (ENot e) s =
     (case eval_expr e s of Inl x \<Rightarrow> Inl x | Inr v \<Rightarrow> Inr (JBool (\<not> truthy v)))"
| "eval_expr (EBin bop l r) s =
     (case eval_expr l s of
        Inl x \<Rightarrow> Inl x
      | Inr v \<Rightarrow>
          (case bop of
             OpAnd \<Rightarrow> if truthy v then eval_expr r s else Inr v
           | OpOr \<Rightarrow> if truthy v then Inr v else eval_expr r s
           | OpNeq \<Rightarrow>
               (case eval_expr r s of Inl x \<Rightarrow> Inl x | Inr w \<Rightarrow> Inr (JBool (v \<noteq> w)))))"
| "eval_expr (ECall f a) s = Inl TypeError"

fun exec_stmt :: "stmt \<Rightarrow> sps \<Rightarrow> jserror option \<times> sps" where
  "exec_stmt SEmpty s = (None, s)"
| "exec_stmt (SAssign b i v) s = (None, set_bank b (arr_set (get_bank b s) i (JBool v)) s)"
| "exec_stmt (SExpr e) s = (case eval_expr e s of Inl x \<Rightarrow> (Some x, s) | Inr v \<Rightarrow> (None, s))"
| "exec_stmt (SIf c s1 s2) s =
     (case eval_expr c s of
        Inl x \<Rightarrow> (Some x, s)
      | Inr v \<Rightarrow> if truthy v then exec_stmt s1 s else exec_stmt s2 s)"
| "exec_stmt (SSeq s1 s2) s =
     (case exec_stmt s1 s of (None, s') \<Rightarrow> exec_stmt s2 s' | (Some x, s') \<Rightarrow> (Some x, s'))"

fun exec_stmts :: "stmt list \<Rightarrow> sps \<Rightarrow> jserror option \<times> sps" where
  "exec_stmts [] s = (None, s)"
| "exec_stmts (st # sts) s =
     (case exec_stmt st s of (None, s') \<Rightarrow> exec_stmts sts s' | (Some x, s') \<Rightarrow> (Some x, s'))"

text \<open>\<^verbatim>\<open>eval(code)\<close>: the exception thrown, if any, and the object afterwards.\<close>

definition run_code :: "string \<Rightarrow> sps \<Rightarrow> jserror option \<times> sps" where
  "run_code code s =
     (case jslex code of
        None \<Rightarrow> (Some SyntaxError, s)
      | Some ts \<Rightarrow>
          (case p_program ts of None \<Rightarrow> (Some SyntaxError, s) | Some prog \<Rightarrow> exec_stmts prog s))"

subsection \<open>The scan and the public methods\<close>

text \<open>
  \<^verbatim>\<open>#SPSRuntime\<close>. \<^verbatim>\<open>eval(undefined)\<close> does nothing. The last line of the source
  assigns the public property \<^verbatim>\<open>this.dataReady\<close>, not the private field.
\<close>

definition SPSRuntime :: "sps \<Rightarrow> jserror option \<times> sps" where
  "SPSRuntime s =
     (let s1 = s\<lparr>RuntimeCounter := RuntimeCounter s + 1\<rparr> in
      case (case SPSCode s1 of None \<Rightarrow> (None, s1) | Some code \<Rightarrow> run_code code s1) of
        (None, s2) \<Rightarrow> (None, s2\<lparr>this_dataReady := Some (JBool True)\<rparr>)
      | (Some x, s2) \<Rightarrow> (Some x, s2))"

text \<open>
  The host's \<^verbatim>\<open>clearInterval\<close> and \<^verbatim>\<open>setInterval\<close> on the table of running timers.
  Handles are positive, hence truthy.
\<close>

definition clearInterval :: "nat option \<Rightarrow> (nat \<times> int) list \<Rightarrow> (nat \<times> int) list" where
  "clearInterval h tbl = (case h of None \<Rightarrow> tbl | Some k \<Rightarrow> filter (\<lambda>p. fst p \<noteq> k) tbl)"

definition fresh_handle :: "(nat \<times> int) list \<Rightarrow> nat" where
  "fresh_handle tbl = Suc (fold max (map fst tbl) 0)"

definition changeSPSState :: "nat \<Rightarrow> sps \<Rightarrow> sps" where
  "changeSPSState newState s =
     (if newState = 0 then
        s\<lparr>host_intervals := clearInterval (runtimeTimer s) (host_intervals s), RuntimeCounter := 0\<rparr>
      else if newState = 1 then
        (case runtimeTimer s of
           None \<Rightarrow> s
         | Some h \<Rightarrow>
             s\<lparr>runtimeTimer := Some (fresh_handle (host_intervals s)),
               host_intervals := host_intervals s @
                 [(fresh_handle (host_intervals s), SPSCycleTime s)]\<rparr>)
      else if newState = 2 then
        s\<lparr>host_intervals := clearInterval (runtimeTimer s) (host_intervals s)\<rparr>
      else s)"

definition setCycleTime :: "int \<Rightarrow> sps \<Rightarrow> int \<times> sps" where
  "setCycleTime delay s =
     (if delay > 10 \<or> delay < 1000 then (0, s\<lparr>SPSCycleTime := delay\<rparr>) else (- 1, s))"

text \<open>\<^verbatim>\<open>for (let i = 0; i < bank.length; i++) bank[i] = values[i]\<close>\<close>

definition overwrite :: "jsarray \<Rightarrow> jsval list \<Rightarrow> jsarray" where
  "overwrite a xs = a\<lparr>elems := map (arg_get xs) [0..<length (elems a)]\<rparr>"

text \<open>
  \<^verbatim>\<open>setFlags\<close> starts with \<^verbatim>\<open>dataReady = false\<close>, an assignment to a variable of that
  name. A class body is strict code: with no such binding the assignment throws a
  \<^verbatim>\<open>ReferenceError\<close>.
\<close>

definition setFlags :: "jsval list \<Rightarrow> sps \<Rightarrow> (jserror + int) \<times> sps" where
  "setFlags flags s =
     (case global_dataReady s of
        None \<Rightarrow> (Inl ReferenceError, s)
      | Some _ \<Rightarrow> (Inr 0, s\<lparr>global_dataReady := Some (JBool False), M := overwrite (M s) flags\<rparr>))"

definition setInputs :: "jsval list \<Rightarrow> sps \<Rightarrow> int \<times> sps" where
  "setInputs inputs s = (0, s\<lparr>dataReady := False, E := overwrite (E s) inputs\<rparr>)"

text \<open>
  What a getter returns: a new array with the given elements, or one of the banks
  itself (the same object, not a copy).
\<close>

datatype array_result = NewArray "jsval list" | TheBank bank

fun deref :: "array_result \<Rightarrow> sps \<Rightarrow> jsval list" where
  "deref (NewArray xs) s = xs"
| "deref (TheBank b) s = elems (get_bank b s)"

definition getInputs :: "sps \<Rightarrow> array_result" where
  "getInputs s = NewArray (map (\<lambda>i. arr_get (E s) (int i)) [0..<8])"

definition getFlags :: "sps \<Rightarrow> array_result" where
  "getFlags s = NewArray (map (\<lambda>i. arr_get (M s) (int i)) [0..<length (elems (M s))])"

definition getOutputs :: "sps \<Rightarrow> (jserror + array_result) \<times> sps" where
  "getOutputs s =
     (if \<not> dataReady s \<and> state s = 1 then
        (case SPSRuntime s of
           (Some x, s') \<Rightarrow> (Inl x, s')
         | (None, s') \<Rightarrow> (Inr (TheBank BankA), s'))
      else (Inr (TheBank BankA), s))"

definition getState :: "sps \<Rightarrow> nat" where
  "getState s = state s"

definition getRuntimeCounter :: "sps \<Rightarrow> nat" where
  "getRuntimeCounter s = RuntimeCounter s"

definition start :: "sps \<Rightarrow> int \<times> sps" where
  "start s = (if state s = 1 then (- 1, s) else (0, changeSPSState 1 (s\<lparr>state := 1\<rparr>)))"

definition stop :: "sps \<Rightarrow> int \<times> sps" where
  "stop s =
     (if state s = 0 then (- 1, s)
      else (0, changeSPSState 0
                 (s\<lparr>state := 0, E := arr_fill0 (E s), A := arr_fill0 (A s), M := arr_fill0 (M s)\<rparr>)))"

definition pause :: "sps \<Rightarrow> int \<times> sps" where
  "pause s = (if state s = 2 then (- 1, s) else (0, changeSPSState 2 (s\<lparr>state := 2\<rparr>)))"

definition dataAvailable :: "sps \<Rightarrow> bool" where
  "dataAvailable s = dataReady s"

subsection \<open>Auxiliary notions\<close>

text \<open>Tokens that cannot continue an expression, and a token list that starts with \<^verbatim>\<open>else\<close>.\<close>

definition stops :: "tok list \<Rightarrow> bool" where
  "stops rest = (case rest of [] \<Rightarrow> True | t # _ \<Rightarrow> t \<noteq> TOr \<and> t \<noteq> TAnd \<and> t \<noteq> TNeq \<and> t \<noteq> TLP)"

definition starts_else :: "tok list \<Rightarrow> bool" where
  "starts_else rest = (case rest of [] \<Rightarrow> False | t # _ \<Rightarrow> t = TElse)"

text \<open>
  Two strings whose tokens can be read one after the other, since no lexeme, number or
  comment of the first runs into the second: the first ends a line, or after its last
  line end it holds no comment and ends with a blank, or the second starts with a
  closing parenthesis. \<open>lex_then\<close> joins the two token lists.
\<close>

definition joinable :: "string \<Rightarrow> string \<Rightarrow> bool" where
  "joinable a b =
     (\<exists>a1 a2. a = a1 @ a2 \<and> (a1 = [] \<or> last a1 = CHR 0x0A) \<and> CHR ''/'' \<notin> set a2 \<and>
        (a2 = [] \<or> last a2 = CHR '' '' \<or> take 1 b = '')''))"

definition lex_then :: "tok list option \<Rightarrow> tok list option \<Rightarrow> tok list option" where
  "lex_then x y = (case x of None \<Rightarrow> None | Some ta \<Rightarrow> map_option ((@) ta) y)"

text \<open>
  The bank an operand's letter names (the classifier admits \<^verbatim>\<open>A\<close>, \<^verbatim>\<open>E\<close> and \<^verbatim>\<open>M\<close>
  only), and the tokens of the reference \<^verbatim>\<open>this.#X[i]\<close>.
\<close>

fun bank_of_char :: "char \<Rightarrow> bank" where
  "bank_of_char c = (if c = CHR ''E'' then BankE else if c = CHR ''A'' then BankA else BankM)"

definition ref_toks :: "bank \<Rightarrow> int \<Rightarrow> tok list" where
  "ref_toks b i =
     [TThis, TDot, TPriv b, TLBrk] @
     (if i < 0 then [TMinus, TNum (nat (- i))] else [TNum (nat i)]) @ [TRBrk]"

text \<open>A command as the classifier builds it: its type fits its text.\<close>

definition wf_command :: "command \<Rightarrow> bool" where
  "wf_command c =
     ((type c = 1 \<and> instruction c \<in> set validlogicalOperations) \<or>
      (type c = 2 \<and> instruction c \<in> set validInstructions) \<or>
      (type c = 3 \<and> validOperandsRegex (instruction c)) \<or>
      (type c = 4 \<and> instruction c \<in> set validBrackets) \<or>
      (type c = 6 \<and> instruction c = '';''))"

text \<open>
  The states of the generator's closure variables: between statements, and inside a
  condition (after the logic operator that opened it, before an instruction). Every
  state the generator reaches satisfies \<open>mode_ok\<close>. \<open>prefixed\<close> puts text and messages
  in front of what a state holds.
\<close>

definition fresh :: "gen_state \<Rightarrow> bool" where
  "fresh st = (isNewBlock st \<and> \<not> openIfBlock st \<and> lastInstruction st = [])"

definition in_condition :: "gen_state \<Rightarrow> bool" where
  "in_condition st = (\<not> isNewBlock st \<and> openIfBlock st \<and> lastInstruction st = [])"

definition mode_ok :: "gen_state \<Rightarrow> bool" where
  "mode_ok st = (\<not> isNewBlock st \<or> (\<not> openIfBlock st \<and> lastInstruction st = []))"

definition prefixed :: "string \<Rightarrow> string list \<Rightarrow> gen_state \<Rightarrow> gen_state" where
  "prefixed pre ep st = st\<lparr>JSCode := pre @ JSCode st, gen_errors := ep @ gen_errors st\<rparr>"

text \<open>
  The register an operand names, 1-based in the text and 0-based in the code, and the
  text the generator appends for the target of a statement whose condition is open.
\<close>

definition target_of :: "command \<Rightarrow> bank \<times> int" where
  "target_of c = (case instruction c of
       [] \<Rightarrow> (BankM, - 1)
     | b # ds \<Rightarrow> (bank_of_char b, parseInt ds - 1))"

definition closing_code :: "string \<Rightarrow> command \<Rightarrow> string" where
  "closing_code i tgt =
     (if i = ''S'' then '') { '' @ operand_ref tgt @ '' = true; } '' @ [CHR 0x0A]
      else if i = ''R'' then '') { '' @ operand_ref tgt @ '' = false; }'' @ [CHR 0x0A]
      else '') { '' @ operand_ref tgt @ '' = true; } else { '' @
           operand_ref tgt @ '' = false; }'' @ [CHR 0x0A])"

text \<open>
  The commands of a condition: a logic operator, then logic operators, operands and
  brackets. While the generator reads them its text starts with \<^verbatim>\<open>if(\<close> and holds no
  comment (\<open>cond_inv\<close>).
\<close>

definition is_condition :: "command list \<Rightarrow> bool" where
  "is_condition cond =
     (case cond of [] \<Rightarrow> False
      | c0 # cs \<Rightarrow> type c0 = 1 \<and> list_all (\<lambda>c. type c = 1 \<or> type c = 3 \<or> type c = 4) cs)"

definition cond_inv :: "gen_state \<Rightarrow> bool" where
  "cond_inv st = (in_condition st \<and> take 3 (JSCode st) = ''if('' \<and> CHR ''/'' \<notin> set (drop 3 (JSCode st)))"

subsection \<open>Vocabulary of the statements about a scan\<close>

text \<open>
  A string that \<^verbatim>\<open>eval\<close> reads as the given statements; a string that is empty or ends
  a line; and the expression that the text of a condition denotes (the text after
  \<^verbatim>\<open>if(\<close>), when it is one.
\<close>

definition parses :: "string \<Rightarrow> stmt list \<Rightarrow> bool" where
  "parses code prog = (case jslex code of None \<Rightarrow> False | Some toks \<Rightarrow> p_program toks = Some prog)"

definition ends_line :: "string \<Rightarrow> bool" where
  "ends_line code = (code = [] \<or> last code = CHR 0x0A)"

definition cond_expr :: "command list \<Rightarrow> expr option" where
  "cond_expr cond =
     (case jslex (drop 3 (JSCode (gen_run cond))) of
        None \<Rightarrow> None
      | Some toks \<Rightarrow>
          (case p_bin 3 toks of
             None \<Rightarrow> None
           | Some (e, r) \<Rightarrow> if r = [] then Some e else None))"

text \<open>
  Writing a boolean to the register a target operand names, and what a statement with
  instruction \<open>ins\<close> and target \<open>tgt\<close> does when its condition has the value \<open>v\<close>:
  \<^verbatim>\<open>S\<close> and \<^verbatim>\<open>R\<close> write only when the value is truthy, \<^verbatim>\<open>=\<close> writes either way.
\<close>

definition write_target :: "command \<Rightarrow> bool \<Rightarrow> sps \<Rightarrow> sps" where
  "write_target tgt x s =
     set_bank (fst (target_of tgt))
       (arr_set (get_bank (fst (target_of tgt)) s) (snd (target_of tgt)) (JBool x)) s"

definition statement_effect :: "command \<Rightarrow> command \<Rightarrow> jsval \<Rightarrow> sps \<Rightarrow> sps" where
  "statement_effect ins tgt v s =
     (if instruction ins = ''S'' then (if truthy v then write_target tgt True s else s)
      else if instruction ins = ''R'' then (if truthy v then write_target tgt False s else s)
      else write_target tgt (truthy v) s)"

text \<open>The tokens and the syntax tree of the text appended for a target.\<close>

definition closing_toks :: "string \<Rightarrow> command \<Rightarrow> tok list" where
  "closing_toks i tgt =
     (let r = ref_toks (fst (target_of tgt)) (snd (target_of tgt)) in
      if i = ''S'' then [TRP, TLB] @ r @ [TAssign, TTrue, TSemi, TRB]
      else if i = ''R'' then [TRP, TLB] @ r @ [TAssign, TFalse, TSemi, TRB]
      else [TRP, TLB] @ r @ [TAssign, TTrue, TSemi, TRB, TElse, TLB] @ r @
           [TAssign, TFalse, TSemi, TRB])"

definition compiled_stmt :: "string \<Rightarrow> expr \<Rightarrow> command \<Rightarrow> stmt" where
  "compiled_stmt i e tgt =
     (let b = fst (target_of tgt); k = snd (target_of tgt) in
      if i = ''S'' then SIf e (SSeq (SAssign b k True) SEmpty) SEmpty
      else if i = ''R'' then SIf e (SSeq (SAssign b k False) SEmpty) SEmpty
      else SIf e (SSeq (SAssign b k True) SEmpty) (SSeq (SAssign b k False) SEmpty))"

text \<open>
  A network on its own: its command array, the code generated for it, and that code's
  statements. It compiles alone when it lexes, the generator ends between statements,
  and \<^verbatim>\<open>eval\<close> can read its code. \<open>run_networks\<close> runs the code of each network in
  turn, each on the registers the one before left, and stops at an exception.
\<close>

definition net_cmds :: "string \<Rightarrow> command list" where
  "net_cmds t = (case fst (generateCodeStructure t) of Some cmds \<Rightarrow> cmds | None \<Rightarrow> [])"

definition net_code :: "string \<Rightarrow> string" where
  "net_code t = JSCode (gen_run (net_cmds t))"

definition net_prog :: "string \<Rightarrow> stmt list" where
  "net_prog t = (case jslex (net_code t) of None \<Rightarrow> [] | Some toks \<Rightarrow>
      (case p_program toks of None \<Rightarrow> [] | Some p \<Rightarrow> p))"

definition compiles_alone :: "string \<Rightarrow> bool" where
  "compiles_alone t =
     (fst (generateCodeStructure t) \<noteq> None \<and> isNewBlock (gen_run (net_cmds t)) \<and>
      (case jslex (net_code t) of None \<Rightarrow> False | Some toks \<Rightarrow> p_program toks \<noteq> None))"

fun run_networks :: "string list \<Rightarrow> sps \<Rightarrow> jserror option \<times> sps" where
  "run_networks [] s = (None, s)"
| "run_networks (t # ts) s =
     (case run_code (net_code t) s of
        (None, s') \<Rightarrow> run_networks ts s'
      | (Some x, s') \<Rightarrow> (Some x, s'))"

text \<open>
  A network of one statement: the lexer reads it as a condition, an instruction, a
  target and the end of the network.
\<close>

definition one_statement :: "string \<Rightarrow> command list \<Rightarrow> command \<Rightarrow> command \<Rightarrow> bool" where
  "one_statement t cond ins tgt =
     (fst (generateCodeStructure t) =
        Some (cond @ [ins, tgt, \<lparr>type = 6, instruction = '';'', blockNumber = length cond + 2\<rparr>]) \<and>
      is_condition cond \<and> type ins = 2 \<and> type tgt = 3)"

text \<open>
  The value a register holds after a statement with instruction \<open>ins\<close> wrote to it,
  \<open>v\<close> being the value of the statement's condition and \<open>old\<close> the value the
  register held before.
\<close>

definition value_after :: "command \<Rightarrow> jsval \<Rightarrow> jsval \<Rightarrow> jsval" where
  "value_after ins v old =
     (if instruction ins = ''S'' then (if truthy v then JBool True else old)
      else if instruction ins = ''R'' then (if truthy v then JBool False else old)
      else JBool (truthy v))"

text \<open>
  A network whose operand numbers are below \<open>2^53\<close>, so that \<^verbatim>\<open>parseInt\<close> and the
  conversion of the index to text are exact.
\<close>

definition exact_operands :: "string \<Rightarrow> bool" where
  "exact_operands t =
     list_all (\<lambda>c. type c = 3 \<longrightarrow> parseInt (tl (instruction c)) < 2 ^ 53) (net_cmds t)"

subsection \<open>Vocabulary of the statements about loading\<close>

text \<open>
  A piece of the text that fits none of the four classes; a network with such a piece;
  a network whose opening and closing brackets differ in number; and the networks of
  an argument of \<^verbatim>\<open>loadCode\<close>.
\<close>

definition unknown_part :: "string \<Rightarrow> bool" where
  "unknown_part p =
     (p \<notin> set validlogicalOperations \<and> p \<notin> set validInstructions \<and>
      \<not> validOperandsRegex p \<and> p \<notin> set validBrackets)"

definition has_invalid_token :: "string \<Rightarrow> bool" where
  "has_invalid_token t = list_ex unknown_part (codeParts_of t)"

definition unbalanced_brackets :: "string \<Rightarrow> bool" where
  "unbalanced_brackets t =
     (count_list (codeParts_of t) ''('' \<noteq> count_list (codeParts_of t) '')'')"

fun networks_of :: "code_input \<Rightarrow> string list" where
  "networks_of (Text t) = [t]"
| "networks_of (Networks nets) = nets"


subsection \<open>Vocabulary of the statements about operands\<close>

text \<open>
  A register access is in bounds when its index is one of the elements the bank holds.
  \<open>compiled_ref\<close> reads the register access back from the text the generator writes
  for an operand.
\<close>

definition ref_in_bounds :: "sps \<Rightarrow> bank \<times> int \<Rightarrow> bool" where
  "ref_in_bounds s r = (0 \<le> snd r \<and> nat (snd r) < length (elems (get_bank (fst r) s)))"

definition compiled_ref :: "command \<Rightarrow> ((bank \<times> int) \<times> tok list) option" where
  "compiled_ref c = (case jslex (operand_ref c) of None \<Rightarrow> None | Some toks \<Rightarrow> p_ref toks)"

section \<open>Example controllers\<close>

text \<open>
  A controller with two registers per bank: the program \<^verbatim>\<open>U E1 = A1\<close> is loaded, the
  inputs are set to 1 and 0, the controller is started, and \<^verbatim>\<open>getOutputs\<close> runs the
  catch-up scan.
\<close>

definition scan_example :: "(jserror + array_result) \<times> sps" where
  "scan_example =
     getOutputs (snd (start (snd (setInputs [JNum 1, JNum 0]
        (snd (snd (loadCode (Text ''U E1 = A1'') (SPS_new 2 2 2))))))))"









text \<open>
  Two networks, the first setting the flag the second reads, with the commands of their
  statements, and two controllers that have loaded them: one whose first input is 1
  and one whose inputs are all 0.
\<close>

definition ex_nets :: "string list" where
  "ex_nets = [''U E1 S M1'', ''U M1 = A1'']"

definition ex_condA :: "command list" where
  "ex_condA = [\<lparr>type = 1, instruction = ''U'', blockNumber = 0\<rparr>,
               \<lparr>type = 3, instruction = ''E1'', blockNumber = 1\<rparr>]"

definition ex_insA :: command where
  "ex_insA = \<lparr>type = 2, instruction = ''S'', blockNumber = 2\<rparr>"

definition ex_tgtA :: command where
  "ex_tgtA = \<lparr>type = 3, instruction = ''M1'', blockNumber = 3\<rparr>"

definition ex_condB :: "command list" where
  "ex_condB = [\<lparr>type = 1, instruction = ''U'', blockNumber = 0\<rparr>,
               \<lparr>type = 3, instruction = ''M1'', blockNumber = 1\<rparr>]"

definition ex_insB :: command where
  "ex_insB = \<lparr>type = 2, instruction = ''='', blockNumber = 2\<rparr>"

definition ex_tgtB :: command where
  "ex_tgtB = \<lparr>type = 3, instruction = ''A1'', blockNumber = 3\<rparr>"

definition ex_on :: sps where
  "ex_on = snd (setInputs [JNum 1, JNum 0] (SPS_new 2 2 2))"

definition ex_off :: sps where
  "ex_off = snd (setInputs [JNum 0, JNum 0] (SPS_new 2 2 2))"

definition ex_loaded_on :: sps where
  "ex_loaded_on = snd (snd (loadCode (Networks ex_nets) ex_on))"

definition ex_loaded_off :: sps where
  "ex_loaded_off = snd (snd (loadCode (Networks ex_nets) ex_off))"

text \<open>
  A controller with two registers per bank that has loaded \<^verbatim>\<open>U E1 = A9\<close>.
\<close>

definition ex_oob :: sps where
  "ex_oob = snd (setInputs [JNum 1, JNum 0]
             (snd (snd (loadCode (Text ''U E1 = A9'') (SPS_new 2 2 2)))))"

section \<open>Properties of the classifier\<close>

lemma classify_invalid:
  "invalidCommand (classify_part st p) = (invalidCommand st \<or> unknown_part p)"
  by (simp add: classify_part_def push_command_def unknown_part_def)

lemma foldl_classify_invalid:
  "invalidCommand (foldl classify_part st ps) = (invalidCommand st \<or> list_ex unknown_part ps)"
  by (induction ps arbitrary: st) (auto simp: classify_invalid)

lemma classify_count:
  "BracketCount (classify_part st p) =
     BracketCount st + (if p = ''('' then 1 else if p = '')'' then - 1 else 0)"
  by (auto simp: classify_part_def push_command_def validlogicalOperations_def
      validInstructions_def validBrackets_def validOperandsRegex_def)

lemma foldl_classify_count:
  "BracketCount (foldl classify_part st ps) =
     BracketCount st + int (count_list ps ''('') - int (count_list ps '')'')"
  by (induction ps arbitrary: st) (auto simp: classify_count)

lemma classify_errors:
  "(invalidCommand st \<longrightarrow> lex_errors st \<noteq> []) \<Longrightarrow>
   invalidCommand (classify_part st p) \<longrightarrow> lex_errors (classify_part st p) \<noteq> []"
  by (simp add: classify_part_def push_command_def)

lemma foldl_classify_errors:
  "(invalidCommand st \<longrightarrow> lex_errors st \<noteq> []) \<Longrightarrow>
   invalidCommand (foldl classify_part st ps) \<longrightarrow> lex_errors (foldl classify_part st ps) \<noteq> []"
proof (induction ps arbitrary: st)
  case Nil
  then show ?case by simp
next
  case (Cons p ps)
  show ?case using Cons.IH[OF classify_errors[OF Cons.prems]] by simp
qed

lemma lex_network_invalid:
  "invalidCommand (lex_network t) = (has_invalid_token t \<or> unbalanced_brackets t)"
  by (auto simp: lex_network_def check_brackets_def foldl_classify_invalid foldl_classify_count
      has_invalid_token_def unbalanced_brackets_def)

lemma lex_network_errors:
  "invalidCommand (lex_network t) \<Longrightarrow> lex_errors (lex_network t) \<noteq> []"
  using foldl_classify_errors[of "\<lparr>commandArray = [], BracketCount = 0, invalidCommand = False, lex_errors = []\<rparr>" "codeParts_of t"]
  by (auto simp: lex_network_def check_brackets_def split: if_splits)

lemma generateCodeStructure_fails:
  "has_invalid_token t \<or> unbalanced_brackets t \<Longrightarrow>
   fst (generateCodeStructure t) = None \<and> snd (generateCodeStructure t) \<noteq> []"
  using lex_network_invalid[of t] lex_network_errors[of t]
  by (auto simp: generateCodeStructure_def Let_def)

lemma generateCodeStructure_ok:
  "\<not> has_invalid_token t \<Longrightarrow> \<not> unbalanced_brackets t \<Longrightarrow>
   generateCodeStructure t =
     (Some (commandArray (lex_network t) @
        [\<lparr>type = 6, instruction = '';'', blockNumber = length (commandArray (lex_network t))\<rparr>]),
      lex_errors (lex_network t))"
  using lex_network_invalid[of t]
  by (auto simp: generateCodeStructure_def Let_def)

lemma load_network_invalid:
  "acc_invalid (load_network acc t) = (acc_invalid acc \<or> fst (generateCodeStructure t) = None)"
  by (auto simp: load_network_def split: prod.splits option.splits)

lemma load_network_errors:
  "acc_errors (load_network acc t) = acc_errors acc @ snd (generateCodeStructure t)"
  by (auto simp: load_network_def split: prod.splits option.splits)

lemma foldl_load_network:
  "t \<in> set nets \<Longrightarrow> fst (generateCodeStructure t) = None \<Longrightarrow> snd (generateCodeStructure t) \<noteq> [] \<Longrightarrow>
   acc_invalid (foldl load_network acc nets) \<and> acc_errors (foldl load_network acc nets) \<noteq> []"
proof (induction nets arbitrary: acc)
  case Nil
  then show ?case by simp
next
  case (Cons n nets)
  have mono: "\<And>acc ns. acc_invalid acc \<Longrightarrow> acc_errors acc \<noteq> [] \<Longrightarrow>
      acc_invalid (foldl load_network acc ns) \<and> acc_errors (foldl load_network acc ns) \<noteq> []"
  proof -
    fix acc ns show "acc_invalid acc \<Longrightarrow> acc_errors acc \<noteq> [] \<Longrightarrow>
      acc_invalid (foldl load_network acc ns) \<and> acc_errors (foldl load_network acc ns) \<noteq> []"
      by (induction ns arbitrary: acc) (auto simp: load_network_invalid load_network_errors)
  qed
  show ?case
  proof (cases "t = n")
    case True
    with Cons.prems show ?thesis
      using mono[of "load_network acc n" nets]
      by (simp add: load_network_invalid load_network_errors)
  next
    case False
    with Cons show ?thesis by simp
  qed
qed

section \<open>Properties of the parser\<close>

declare p_bin.simps [simp del] p_tail.simps [simp del] p_unary.simps [simp del] p_calls.simps [simp del]
declare p_stmt.simps [simp del] p_block.simps [simp del] p_program.simps [simp del]

lemma p_index_append: "p_index ts = Some (i, r) \<Longrightarrow> p_index (ts @ rest) = Some (i, r @ rest)"
  by (auto simp: p_index_def split: list.splits if_splits)

lemma p_ref_append: "p_ref ts = Some (x, r) \<Longrightarrow> p_ref (ts @ rest) = Some (x, r @ rest)"
  by (auto simp: p_ref_def p_index_append split: list.splits option.splits)

lemma p_ref_length: "p_ref ts = Some (x, r) \<Longrightarrow> length r < length ts"
  by (auto simp: p_ref_def p_index_def split: list.splits option.splits if_splits)

lemma op_at_stops: "stops (t # rest) \<Longrightarrow> op_at l t = None"
  by (auto simp: stops_def op_at_def)

lemma p_bin_0: "p_bin 0 ts = p_unary ts"
  by (subst p_bin.simps) simp

lemma p_bin_pos:
  "0 < l \<Longrightarrow> p_bin l ts =
     (case p_bin (l - 1) ts of None \<Rightarrow> None
      | Some (e, r) \<Rightarrow> if length r \<le> length ts then p_tail l e r else None)"
  by (subst p_bin.simps) simp

lemma p_tail_Nil: "p_tail l lhs [] = Some (lhs, [])"
  by (subst p_tail.simps) simp

lemma p_tail_Cons:
  "p_tail l lhs (t # ts) =
     (case op_at l t of
        None \<Rightarrow> Some (lhs, t # ts)
      | Some bop \<Rightarrow>
          (case p_bin (l - 1) ts of
             None \<Rightarrow> None
           | Some (e, r) \<Rightarrow> if length r \<le> length ts then p_tail l (EBin bop lhs e) r else None))"
  by (subst p_tail.simps) simp

lemma p_unary_Nil: "p_unary [] = None"
  by (subst p_unary.simps) simp

lemma p_unary_Not:
  "p_unary (TNot # ts) = (case p_unary ts of None \<Rightarrow> None | Some (e, r) \<Rightarrow> Some (ENot e, r))"
  by (subst p_unary.simps) simp

lemma p_unary_LP:
  "p_unary (TLP # ts) =
     (case p_bin 3 ts of
        None \<Rightarrow> None
      | Some (e, r0) \<Rightarrow>
          (case expect TRP r0 of
             None \<Rightarrow> None
           | Some r \<Rightarrow> if length r \<le> length ts then p_calls e r else None))"
  by (subst p_unary.simps) simp

lemma p_unary_ref:
  "t \<noteq> TNot \<Longrightarrow> t \<noteq> TLP \<Longrightarrow> p_unary (t # ts) =
     (case p_ref (t # ts) of
        None \<Rightarrow> None
      | Some ((b, i), r) \<Rightarrow> if length r < length (t # ts) then p_calls (ERef b i) r else None)"
  by (subst p_unary.simps) simp

lemma p_calls_stop: "expect TLP ts = None \<Longrightarrow> p_calls f ts = Some (f, ts)"
  by (subst p_calls.simps) simp

lemma p_calls_empty: "p_calls f (TLP # TRP # r) = p_calls (ECall f None) r"
  by (subst p_calls.simps) simp

lemma p_calls_arg:
  "expect TRP ts = None \<Longrightarrow> p_calls f (TLP # ts) =
     (case p_bin 3 ts of
        None \<Rightarrow> None
      | Some (a, r0) \<Rightarrow>
          (case expect TRP r0 of
             None \<Rightarrow> None
           | Some r \<Rightarrow> if length r \<le> length ts then p_calls (ECall f (Some a)) r else None))"
  by (subst p_calls.simps) simp

lemma p_append:
  "p_bin l ts = Some (e, r) \<Longrightarrow> (r = [] \<longrightarrow> stops rest) \<Longrightarrow> p_bin l (ts @ rest) = Some (e, r @ rest)"
  "p_tail l lhs ts = Some (e, r) \<Longrightarrow> (r = [] \<longrightarrow> stops rest) \<Longrightarrow> p_tail l lhs (ts @ rest) = Some (e, r @ rest)"
  "p_unary ts = Some (e, r) \<Longrightarrow> (r = [] \<longrightarrow> stops rest) \<Longrightarrow> p_unary (ts @ rest) = Some (e, r @ rest)"
  "p_calls f ts = Some (e, r) \<Longrightarrow> (r = [] \<longrightarrow> stops rest) \<Longrightarrow> p_calls f (ts @ rest) = Some (e, r @ rest)"
proof (induction l ts and l lhs ts and ts and f ts arbitrary: e r and e r and e r and e r
    rule: p_bin_p_tail_p_unary_p_calls.induct)
  case (1 l ts)
  show ?case
  proof (cases "l = 0")
    case True
    with 1 show ?thesis by (simp add: p_bin_0)
  next
    case False
    from "1.prems"(1) False obtain e1 r1 where
      a: "p_bin (l - 1) ts = Some (e1, r1)" and g: "length r1 \<le> length ts"
      and b: "p_tail l e1 r1 = Some (e, r)"
      by (auto simp: p_bin_pos split: option.splits if_splits)
    have "r1 = [] \<longrightarrow> stops rest"
      using b "1.prems"(2) by (auto simp: p_tail_Nil)
    then have a': "p_bin (l - 1) (ts @ rest) = Some (e1, r1 @ rest)"
      using "1.IH"(2)[OF False a] by simp
    have b': "p_tail l e1 (r1 @ rest) = Some (e, r @ rest)"
      using "1.IH"(3)[OF False a _ g b "1.prems"(2)] by simp
    show ?thesis using False a' b' g by (simp add: p_bin_pos)
  qed
next
  case (2 l lhs ts)
  show ?case
  proof (cases ts)
    case Nil
    with "2.prems" show ?thesis
      by (cases rest) (auto simp: p_tail_Nil p_tail_Cons op_at_stops)
  next
    case (Cons t ts')
    show ?thesis
    proof (cases "op_at l t")
      case None
      with Cons "2.prems" show ?thesis by (auto simp: p_tail_Cons)
    next
      case (Some bop)
      from "2.prems"(1) Cons Some obtain e1 r1 where
        a: "p_bin (l - 1) ts' = Some (e1, r1)" and g: "length r1 \<le> length ts'"
        and b: "p_tail l (EBin bop lhs e1) r1 = Some (e, r)"
        by (auto simp: p_tail_Cons split: option.splits if_splits)
      have "r1 = [] \<longrightarrow> stops rest"
        using b "2.prems"(2) by (auto simp: p_tail_Nil)
      then have a': "p_bin (l - 1) (ts' @ rest) = Some (e1, r1 @ rest)"
        using "2.IH"(1)[OF Cons Some a] by simp
      have b': "p_tail l (EBin bop lhs e1) (r1 @ rest) = Some (e, r @ rest)"
        using "2.IH"(2)[OF Cons Some a _ g b "2.prems"(2)] by simp
      show ?thesis using Cons Some a' b' g by (simp add: p_tail_Cons)
    qed
  qed
next
  case (3 ts)
  show ?case
  proof (cases ts)
    case Nil
    with "3.prems" show ?thesis by (simp add: p_unary_Nil)
  next
    case (Cons t ts')
    consider (n) "t = TNot" | (lp) "t \<noteq> TNot" "t = TLP" | (other) "t \<noteq> TNot" "t \<noteq> TLP" by blast
    then show ?thesis
    proof cases
      case n
      from "3.prems"(1) Cons n obtain e1 where
        a: "p_unary ts' = Some (e1, r)" and e: "e = ENot e1"
        by (auto simp: p_unary_Not split: option.splits)
      have "p_unary (ts' @ rest) = Some (e1, r @ rest)"
        using "3.IH"(1)[OF Cons n a "3.prems"(2)] .
      then show ?thesis using Cons n e by (simp add: p_unary_Not)
    next
      case lp
      from "3.prems"(1) Cons lp obtain e1 r1 where
        a: "p_bin 3 ts' = Some (e1, TRP # r1)" and g: "length r1 \<le> length ts'"
        and b: "p_calls e1 r1 = Some (e, r)"
        by (auto simp: p_unary_LP split: option.splits if_splits)
      have a': "p_bin 3 (ts' @ rest) = Some (e1, TRP # r1 @ rest)"
        using "3.IH"(2)[OF Cons lp a] by simp
      have b': "p_calls e1 (r1 @ rest) = Some (e, r @ rest)"
        using "3.IH"(3)[OF Cons lp a _ _ g b "3.prems"(2)] by simp
      show ?thesis using Cons lp a' b' g by (simp add: p_unary_LP)
    next
      case other
      from "3.prems"(1) Cons other obtain b i r1 where
        a: "p_ref ts = Some ((b, i), r1)" and g: "length r1 < length ts"
        and c: "p_calls (ERef b i) r1 = Some (e, r)"
        by (auto simp: p_unary_ref split: option.splits if_splits)
      have a': "p_ref (ts @ rest) = Some ((b, i), r1 @ rest)"
        using a by (rule p_ref_append)
      have c': "p_calls (ERef b i) (r1 @ rest) = Some (e, r @ rest)"
        using "3.IH"(4)[OF Cons other a _ _ g c "3.prems"(2)] by simp
      show ?thesis using Cons other a' c' g by (simp add: p_unary_ref)
    qed
  qed
next
  case (4 f ts)
  show ?case
  proof (cases "expect TLP ts")
    case None
    with "4.prems"(1) have r: "r = ts" "e = f" by (simp_all add: p_calls_stop)
    have "expect TLP (ts @ rest) = None"
      using None r "4.prems"(2) by (cases ts; cases rest) (auto simp: stops_def split: if_splits)
    then show ?thesis using r by (simp add: p_calls_stop)
  next
    case (Some ts')
    then have ts: "ts = TLP # ts'" by simp
    show ?thesis
    proof (cases "expect TRP ts'")
      case (Some r0)
      then have ts': "ts' = TRP # r0" by simp
      from "4.prems"(1) ts ts' have a: "p_calls (ECall f None) r0 = Some (e, r)"
        by (simp add: p_calls_empty)
      have "p_calls (ECall f None) (r0 @ rest) = Some (e, r @ rest)"
        using "4.IH"(3)[OF \<open>expect TLP ts = Some ts'\<close> Some a "4.prems"(2)] .
      then show ?thesis using ts ts' by (simp add: p_calls_empty)
    next
      case None
      from "4.prems"(1) ts None obtain e1 r1 where
        a: "p_bin 3 ts' = Some (e1, TRP # r1)" and g: "length r1 \<le> length ts'"
        and b: "p_calls (ECall f (Some e1)) r1 = Some (e, r)"
        by (auto simp: p_calls_arg split: option.splits if_splits)
      have a': "p_bin 3 (ts' @ rest) = Some (e1, TRP # r1 @ rest)"
        using "4.IH"(1)[OF \<open>expect TLP ts = Some ts'\<close> None a] by simp
      have b': "p_calls (ECall f (Some e1)) (r1 @ rest) = Some (e, r @ rest)"
        using "4.IH"(2)[OF \<open>expect TLP ts = Some ts'\<close> None a _ _ g b "4.prems"(2)] by simp
      have ne: "ts' \<noteq> []" using a by (auto simp: p_bin_pos p_bin_0 p_unary_Nil)
      have "expect TRP (ts' @ rest) = None"
        using None ne by (cases ts') (auto split: if_splits)
      then show ?thesis using ts a' b' g by (simp add: p_calls_arg)
    qed
  qed
qed

lemma p_stmt_Nil: "p_stmt [] = None"
  by (subst p_stmt.simps) simp

lemma p_stmt_Semi: "p_stmt (TSemi # ts) = Some (SEmpty, ts)"
  by (subst p_stmt.simps) simp

lemma p_stmt_LB: "p_stmt (TLB # ts) = p_block ts"
  by (subst p_stmt.simps) simp

lemma p_stmt_If:
  "p_stmt (TIf # ts) =
     (case expect TLP ts of None \<Rightarrow> None | Some r0 \<Rightarrow>
      (case p_bin 3 r0 of None \<Rightarrow> None | Some (c, r1) \<Rightarrow>
       (case expect TRP r1 of None \<Rightarrow> None | Some r2 \<Rightarrow>
        if length r2 < length (TIf # ts) then
          (case p_stmt r2 of None \<Rightarrow> None | Some (s1, r3) \<Rightarrow>
           (case expect TElse r3 of
              None \<Rightarrow> Some (SIf c s1 SEmpty, r3)
            | Some r4 \<Rightarrow>
                if length r4 < length (TIf # ts) then
                  (case p_stmt r4 of None \<Rightarrow> None
                   | Some (s2, r5) \<Rightarrow> Some (SIf c s1 s2, r5))
                else None))
        else None)))"
  by (subst p_stmt.simps) simp

lemma p_stmt_other:
  "t \<noteq> TSemi \<Longrightarrow> t \<noteq> TLB \<Longrightarrow> t \<noteq> TIf \<Longrightarrow> p_stmt (t # ts) =
     (case p_target (t # ts) of
        Some ((b, i), r2) \<Rightarrow>
          (case r2 of [] \<Rightarrow> None | v # r3 \<Rightarrow>
           (case expect TSemi r3 of None \<Rightarrow> None | Some r4 \<Rightarrow>
            if v = TTrue then Some (SAssign b i True, r4)
            else if v = TFalse then Some (SAssign b i False, r4)
            else None))
      | None \<Rightarrow>
          (case p_bin 3 (t # ts) of None \<Rightarrow> None | Some (e, r) \<Rightarrow>
           (case expect TSemi r of None \<Rightarrow> None | Some r' \<Rightarrow> Some (SExpr e, r'))))"
  by (subst p_stmt.simps) simp

lemma p_target_append: "p_target ts = Some (x, r) \<Longrightarrow> p_target (ts @ rest) = Some (x, r @ rest)"
  by (auto simp: p_target_def p_ref_append split: option.splits)

lemma p_target_length: "p_target ts = Some (x, r) \<Longrightarrow> length r < length ts"
  by (auto simp: p_target_def split: option.splits dest: p_ref_length)

lemma p_bin_unary: "p_bin l ts = Some (e, r) \<Longrightarrow> p_unary ts \<noteq> None"
proof (induction l arbitrary: e r)
  case 0
  then show ?case by (simp add: p_bin_0)
next
  case (Suc l)
  then show ?case by (auto simp: p_bin_pos split: option.splits)
qed

lemma p_bin_ref_only:
  assumes "p_ref ts = Some ((b, i), [])"
  shows "p_bin 3 ts = Some (ERef b i, [])"
proof -
  obtain ts' where ts: "ts = TThis # ts'" using assms by (auto simp: p_ref_def split: option.splits)
  have "p_unary ts = Some (ERef b i, [])"
    using assms unfolding ts by (simp add: p_unary_ref p_calls_stop)
  then have "p_bin 0 ts = Some (ERef b i, [])" by (simp add: p_bin_0)
  then have "p_bin 1 ts = Some (ERef b i, [])" by (simp add: p_bin_pos p_tail_Nil)
  then have "p_bin 2 ts = Some (ERef b i, [])" by (simp add: p_bin_pos p_tail_Nil)
  then show ?thesis by (simp add: p_bin_pos p_tail_Nil)
qed

text \<open>
  A statement read as an expression is still one when more tokens follow: what follows
  cannot turn its start into the target of an assignment.
\<close>

lemma p_target_None_append:
  assumes n: "p_target ts = None" and e: "p_bin 3 ts = Some (e, r)" and r: "r \<noteq> []"
  shows "p_target (ts @ rest) = None"
proof -
  from p_bin_unary[OF e] have u: "p_unary ts \<noteq> None" .
  then obtain t ts' where ts: "ts = t # ts'" by (cases ts) (auto simp: p_unary_Nil)
  show ?thesis
  proof (cases "t = TThis")
    case True
    with u ts obtain b i r1 where p: "p_ref ts = Some ((b, i), r1)"
      by (auto simp: p_unary_ref split: option.splits)
    have "r1 \<noteq> []"
    proof
      assume "r1 = []"
      with p have "p_bin 3 ts = Some (ERef b i, [])" by (simp add: p_bin_ref_only)
      with e r show False by simp
    qed
    moreover from n p have "expect TAssign r1 = None" by (simp add: p_target_def split: option.splits)
    ultimately have "expect TAssign (r1 @ rest) = None" by (cases r1) (auto split: if_splits)
    then show ?thesis using p_ref_append[OF p, of rest] by (simp add: p_target_def)
  next
    case False
    then show ?thesis using ts by (simp add: p_target_def p_ref_def)
  qed
qed

lemma p_bin_else: "p_bin l (TElse # ts) = None"
proof (induction l)
  case 0
  show ?case by (simp add: p_bin_0 p_unary_ref p_ref_def)
next
  case (Suc l)
  then show ?case by (simp add: p_bin_pos)
qed

lemma p_block_RB: "p_block (TRB # ts) = Some (SEmpty, ts)"
  by (subst p_block.simps) simp

lemma p_block_stmt:
  "expect TRB ts = None \<Longrightarrow> p_block ts =
     (case p_stmt ts of None \<Rightarrow> None | Some (s, r) \<Rightarrow>
      if length r < length ts then
        (case p_block r of None \<Rightarrow> None | Some (ss, r') \<Rightarrow> Some (SSeq s ss, r'))
      else None)"
  by (subst p_block.simps) simp

lemma p_program_Nil: "p_program [] = Some []"
  by (subst p_program.simps) simp

lemma p_program_Cons:
  "ts \<noteq> [] \<Longrightarrow> p_program ts =
     (case p_stmt ts of None \<Rightarrow> None | Some (s, r) \<Rightarrow>
      if length r < length ts then map_option ((#) s) (p_program r) else None)"
  by (subst p_program.simps) simp


lemma p_stmt_append:
  "p_stmt ts = Some (s, r) \<Longrightarrow> (r = [] \<longrightarrow> \<not> starts_else rest) \<Longrightarrow>
     p_stmt (ts @ rest) = Some (s, r @ rest)"
  "p_block ts = Some (s, r) \<Longrightarrow> (r = [] \<longrightarrow> \<not> starts_else rest) \<Longrightarrow>
     p_block (ts @ rest) = Some (s, r @ rest)"
proof (induction ts and ts arbitrary: s r and s r rule: p_stmt_p_block.induct)
  case (1 ts)
  show ?case
  proof (cases ts)
    case Nil
    with "1.prems" show ?thesis by (simp add: p_stmt_Nil)
  next
    case (Cons t ts')
    consider (semi) "t = TSemi" | (lb) "t \<noteq> TSemi" "t = TLB" | (iff) "t \<noteq> TSemi" "t \<noteq> TLB" "t = TIf"
      | (asg) "t \<noteq> TSemi" "t \<noteq> TLB" "t \<noteq> TIf" by blast
    then show ?thesis
    proof cases
      case semi
      with Cons "1.prems" show ?thesis by (auto simp: p_stmt_Semi)
    next
      case lb
      from "1.prems"(1) Cons lb have a: "p_block ts' = Some (s, r)" by (simp add: p_stmt_LB)
      have "p_block (ts' @ rest) = Some (s, r @ rest)"
        using "1.IH"(1)[OF Cons lb a "1.prems"(2)] .
      then show ?thesis using Cons lb by (simp add: p_stmt_LB)
    next
      case iff
      from "1.prems"(1) Cons iff obtain r0 c r2 s1 r3 where
        ts': "ts' = TLP # r0" and c: "p_bin 3 r0 = Some (c, TRP # r2)"
        and g: "length r2 < length ts" and s1: "p_stmt r2 = Some (s1, r3)"
        and rest: "(case expect TElse r3 of
              None \<Rightarrow> Some (SIf c s1 SEmpty, r3)
            | Some r4 \<Rightarrow>
                if length r4 < length ts then
                  (case p_stmt r4 of None \<Rightarrow> None
                   | Some (s2, r5) \<Rightarrow> Some (SIf c s1 s2, r5))
                else None) = Some (s, r)"
        by (auto simp: p_stmt_If split: option.splits if_splits)
      have c': "p_bin 3 (r0 @ rest) = Some (c, TRP # r2 @ rest)"
        using p_append(1)[OF c, of rest] by simp
      have e0: "expect TLP ts' = Some r0" using ts' by simp
      have e1: "expect TRP (TRP # r2) = Some r2" by simp
      show ?thesis
      proof (cases "expect TElse r3")
        case None
        with rest have sr: "s = SIf c s1 SEmpty" "r = r3" by auto
        have s1': "p_stmt (r2 @ rest) = Some (s1, r3 @ rest)"
          using "1.IH"(2)[OF Cons iff e0 c _ e1 g s1] sr "1.prems"(2) Cons by simp
        have "expect TElse (r3 @ rest) = None"
          using None sr "1.prems"(2)
          by (cases r3; cases rest) (auto simp: starts_else_def split: if_splits)
        then show ?thesis using Cons iff ts' c' s1' g sr by (simp add: p_stmt_If)
      next
        case (Some r4)
        then have r3: "r3 = TElse # r4" by simp
        from rest Some obtain s2 where g4: "length r4 < length ts"
          and s2: "p_stmt r4 = Some (s2, r)" and s: "s = SIf c s1 s2"
          by (auto split: option.splits if_splits)
        have s1': "p_stmt (r2 @ rest) = Some (s1, r3 @ rest)"
          using "1.IH"(2)[OF Cons iff e0 c _ e1 g s1] r3 Cons by simp
        have s2': "p_stmt (r4 @ rest) = Some (s2, r @ rest)"
          using "1.IH"(3)[OF Cons iff e0 c _ e1 g s1 _ Some g4 s2 "1.prems"(2)] Cons by simp
        show ?thesis using Cons iff ts' c' s1' s2' g g4 r3 s by (simp add: p_stmt_If)
      qed
    next
      case asg
      show ?thesis
      proof (cases "p_target ts")
        case (Some a)
        then obtain b i r2 where a: "p_target ts = Some ((b, i), r2)" by (cases a) auto
        have a': "p_target (ts @ rest) = Some ((b, i), r2 @ rest)" using a by (rule p_target_append)
        from "1.prems"(1) Cons asg a show ?thesis
          using a'[unfolded Cons]
          by (auto simp: p_stmt_other split: option.splits list.splits if_splits)
      next
        case None
        with "1.prems"(1) Cons asg obtain e r0 where
          e: "p_bin 3 ts = Some (e, r0)" and r0: "r0 = TSemi # r" and s: "s = SExpr e"
          by (auto simp: p_stmt_other split: option.splits)
        have n': "p_target (ts @ rest) = None"
          using p_target_None_append[OF None e] r0 by simp
        have e': "p_bin 3 (ts @ rest) = Some (e, r0 @ rest)"
          using p_append(1)[OF e] r0 by simp
        show ?thesis using Cons asg n'[unfolded Cons] e'[unfolded Cons] r0 s
          by (simp add: p_stmt_other)
      qed
    qed
  qed
next
  case (2 ts)
  show ?case
  proof (cases "expect TRB ts")
    case (Some r0)
    with "2.prems" show ?thesis by (auto simp: p_block_RB)
  next
    case None
    from "2.prems"(1) None obtain s1 r1 ss where
      a: "p_stmt ts = Some (s1, r1)" and g: "length r1 < length ts"
      and b: "p_block r1 = Some (ss, r)" and s: "s = SSeq s1 ss"
      by (auto simp: p_block_stmt split: option.splits if_splits)
    have ne: "r1 \<noteq> []" using b by (auto simp: p_block_stmt p_stmt_Nil)
    have a': "p_stmt (ts @ rest) = Some (s1, r1 @ rest)"
      using "2.IH"(1)[OF None a] ne by simp
    have b': "p_block (r1 @ rest) = Some (ss, r @ rest)"
      using "2.IH"(2)[OF None a _ g b "2.prems"(2)] by simp
    have tne: "ts \<noteq> []" using a by (auto simp: p_stmt_Nil)
    have "expect TRB (ts @ rest) = None" using None tne by (cases ts) (auto split: if_splits)
    then show ?thesis using a' b' g s by (simp add: p_block_stmt)
  qed
qed


lemma p_length:
  "p_bin l ts = Some (e, r) \<Longrightarrow> length r < length ts"
  "p_tail l lhs ts = Some (e, r) \<Longrightarrow> length r \<le> length ts"
  "p_unary ts = Some (e, r) \<Longrightarrow> length r < length ts"
  "p_calls f ts = Some (e, r) \<Longrightarrow> length r \<le> length ts"
proof (induction l ts and l lhs ts and ts and f ts arbitrary: e r and e r and e r and e r
    rule: p_bin_p_tail_p_unary_p_calls.induct)
  case (1 l ts)
  show ?case
  proof (cases "l = 0")
    case True
    with 1 show ?thesis by (simp add: p_bin_0)
  next
    case False
    from "1.prems"(1) False obtain e1 r1 where
      a: "p_bin (l - 1) ts = Some (e1, r1)" and g: "length r1 \<le> length ts"
      and b: "p_tail l e1 r1 = Some (e, r)"
      by (auto simp: p_bin_pos split: option.splits if_splits)
    from "1.IH"(2)[OF False a] "1.IH"(3)[OF False a _ g b] show ?thesis by simp
  qed
next
  case (2 l lhs ts)
  show ?case
  proof (cases ts)
    case Nil
    with "2.prems" show ?thesis by (simp add: p_tail_Nil)
  next
    case (Cons t ts')
    show ?thesis
    proof (cases "op_at l t")
      case None
      with Cons "2.prems" show ?thesis by (auto simp: p_tail_Cons)
    next
      case (Some bop)
      from "2.prems"(1) Cons Some obtain e1 r1 where
        a: "p_bin (l - 1) ts' = Some (e1, r1)" and g: "length r1 \<le> length ts'"
        and b: "p_tail l (EBin bop lhs e1) r1 = Some (e, r)"
        by (auto simp: p_tail_Cons split: option.splits if_splits)
      from "2.IH"(2)[OF Cons Some a _ g b] g Cons show ?thesis by simp
    qed
  qed
next
  case (3 ts)
  show ?case
  proof (cases ts)
    case Nil
    with "3.prems" show ?thesis by (simp add: p_unary_Nil)
  next
    case (Cons t ts')
    consider (n) "t = TNot" | (lp) "t \<noteq> TNot" "t = TLP" | (other) "t \<noteq> TNot" "t \<noteq> TLP" by blast
    then show ?thesis
    proof cases
      case n
      from "3.prems"(1) Cons n obtain e1 where
        a: "p_unary ts' = Some (e1, r)"
        by (auto simp: p_unary_Not split: option.splits)
      from "3.IH"(1)[OF Cons n a] Cons show ?thesis by simp
    next
      case lp
      from "3.prems"(1) Cons lp obtain e1 r1 where
        a: "p_bin 3 ts' = Some (e1, TRP # r1)" and g: "length r1 \<le> length ts'"
        and b: "p_calls e1 r1 = Some (e, r)"
        by (auto simp: p_unary_LP split: option.splits if_splits)
      from "3.IH"(3)[OF Cons lp a _ _ g b] g Cons show ?thesis by simp
    next
      case other
      from "3.prems"(1) Cons other obtain b i r1 where
        a: "p_ref ts = Some ((b, i), r1)" and g: "length r1 < length ts"
        and c: "p_calls (ERef b i) r1 = Some (e, r)"
        by (auto simp: p_unary_ref split: option.splits if_splits)
      from "3.IH"(4)[OF Cons other a _ _ g c] g show ?thesis by simp
    qed
  qed
next
  case (4 f ts)
  show ?case
  proof (cases "expect TLP ts")
    case None
    with "4.prems"(1) show ?thesis by (simp add: p_calls_stop)
  next
    case (Some ts')
    then have ts: "ts = TLP # ts'" by simp
    show ?thesis
    proof (cases "expect TRP ts'")
      case (Some r0)
      then have ts': "ts' = TRP # r0" by simp
      from "4.prems"(1) ts ts' have a: "p_calls (ECall f None) r0 = Some (e, r)"
        by (simp add: p_calls_empty)
      from "4.IH"(3)[OF \<open>expect TLP ts = Some ts'\<close> Some a] ts ts' show ?thesis by simp
    next
      case None
      from "4.prems"(1) ts None obtain e1 r1 where
        a: "p_bin 3 ts' = Some (e1, TRP # r1)" and g: "length r1 \<le> length ts'"
        and b: "p_calls (ECall f (Some e1)) r1 = Some (e, r)"
        by (auto simp: p_calls_arg split: option.splits if_splits)
      from "4.IH"(2)[OF \<open>expect TLP ts = Some ts'\<close> None a _ _ g b] g ts show ?thesis by simp
    qed
  qed
qed

lemma p_stmt_length:
  "p_stmt ts = Some (s, r) \<Longrightarrow> length r < length ts"
  "p_block ts = Some (s, r) \<Longrightarrow> length r < length ts"
proof (induction ts and ts arbitrary: s r and s r rule: p_stmt_p_block.induct)
  case (1 ts)
  show ?case
  proof (cases ts)
    case Nil
    with "1.prems" show ?thesis by (simp add: p_stmt_Nil)
  next
    case (Cons t ts')
    consider (semi) "t = TSemi" | (lb) "t \<noteq> TSemi" "t = TLB" | (iff) "t \<noteq> TSemi" "t \<noteq> TLB" "t = TIf"
      | (asg) "t \<noteq> TSemi" "t \<noteq> TLB" "t \<noteq> TIf" by blast
    then show ?thesis
    proof cases
      case semi
      with Cons "1.prems" show ?thesis by (auto simp: p_stmt_Semi)
    next
      case lb
      from "1.prems"(1) Cons lb have a: "p_block ts' = Some (s, r)" by (simp add: p_stmt_LB)
      from "1.IH"(1)[OF Cons lb a] Cons show ?thesis by simp
    next
      case iff
      from "1.prems"(1) Cons iff obtain r0 c r2 s1 r3 where
        ts': "ts' = TLP # r0" and c: "p_bin 3 r0 = Some (c, TRP # r2)"
        and g: "length r2 < length ts" and s1: "p_stmt r2 = Some (s1, r3)"
        and rest: "(case expect TElse r3 of
              None \<Rightarrow> Some (SIf c s1 SEmpty, r3)
            | Some r4 \<Rightarrow>
                if length r4 < length ts then
                  (case p_stmt r4 of None \<Rightarrow> None
                   | Some (s2, r5) \<Rightarrow> Some (SIf c s1 s2, r5))
                else None) = Some (s, r)"
        by (auto simp: p_stmt_If split: option.splits if_splits)
      have e0: "expect TLP ts' = Some r0" using ts' by simp
      have e1: "expect TRP (TRP # r2) = Some r2" by simp
      have l3: "length r3 < length r2"
        using "1.IH"(2)[OF Cons iff e0 c refl e1 g s1] by simp
      show ?thesis
      proof (cases "expect TElse r3")
        case None
        with rest l3 g show ?thesis by auto
      next
        case (Some r4)
        from rest Some obtain s2 where g4: "length r4 < length ts"
          and s2: "p_stmt r4 = Some (s2, r)"
          by (auto split: option.splits if_splits)
        from "1.IH"(3)[OF Cons iff e0 c refl e1 g s1 refl Some g4 s2] g4 show ?thesis by simp
      qed
    next
      case asg
      show ?thesis
      proof (cases "p_target ts")
        case (Some a)
        then obtain b i r2 where a: "p_target ts = Some ((b, i), r2)" by (cases a) auto
        from "1.prems"(1) Cons asg a p_target_length[OF a] show ?thesis
          by (auto simp: p_stmt_other split: option.splits list.splits if_splits)
      next
        case None
        with "1.prems"(1) Cons asg obtain e r0 where
          e: "p_bin 3 ts = Some (e, r0)" and r0: "r0 = TSemi # r"
          by (auto simp: p_stmt_other split: option.splits)
        from p_length(1)[OF e] r0 show ?thesis by simp
      qed
    qed
  qed
next
  case (2 ts)
  show ?case
  proof (cases "expect TRB ts")
    case (Some r0)
    with "2.prems" show ?thesis by (auto simp: p_block_RB)
  next
    case None
    from "2.prems"(1) None obtain s1 r1 ss where
      a: "p_stmt ts = Some (s1, r1)" and g: "length r1 < length ts"
      and b: "p_block r1 = Some (ss, r)"
      by (auto simp: p_block_stmt split: option.splits if_splits)
    from "2.IH"(2)[OF None a _ g b] g show ?thesis by simp
  qed
qed

lemma p_stmt_not_else: "p_stmt ts = Some (s, r) \<Longrightarrow> \<not> starts_else ts"
  by (cases ts) (auto simp: starts_else_def p_stmt_other p_target_def p_ref_def p_bin_else split: option.splits)

lemma p_program_not_else: "p_program ts = Some p \<Longrightarrow> \<not> starts_else ts"
  by (cases "ts = []") (auto simp: starts_else_def p_program_Cons dest: p_stmt_not_else split: option.splits if_splits list.splits)

lemma p_program_append:
  "p_program t1 = Some a \<Longrightarrow> p_program t2 = Some b \<Longrightarrow> p_program (t1 @ t2) = Some (a @ b)"
proof (induction t1 arbitrary: a rule: p_program.induct)
  case (1 ts)
  show ?case
  proof (cases "ts = []")
    case True
    with "1.prems" show ?thesis by (simp add: p_program_Nil)
  next
    case False
    from "1.prems"(1) False obtain s r a' where
      st: "p_stmt ts = Some (s, r)" and g: "length r < length ts"
      and pr: "p_program r = Some a'" and a: "a = s # a'"
      by (auto simp: p_program_Cons split: option.splits if_splits)
    have st': "p_stmt (ts @ t2) = Some (s, r @ t2)"
      using p_stmt_append(1)[OF st] p_program_not_else[OF "1.prems"(2)] by simp
    have "p_program (r @ t2) = Some (a' @ b)"
      using "1.IH"[OF False st _ g pr "1.prems"(2)] by simp
    then show ?thesis using False st' g a by (simp add: p_program_Cons)
  qed
qed

section \<open>Properties of the lexer of the generated code\<close>

lemma lex_then_simps [simp]:
  "lex_then None y = None"
  "lex_then (Some ta) None = None"
  "lex_then (Some ta) (Some tb) = Some (ta @ tb)"
  "lex_then (Some []) y = y"
  by (cases y; simp add: lex_then_def option.map_ident)+

lemma lex_then_cons_tok: "lex_then (cons_tok t x) y = cons_tok t (lex_then x y)"
  by (cases x; cases y) (auto simp: lex_then_def cons_tok_def)

lemma joinableI:
  "a = a1 @ a2 \<Longrightarrow> a1 = [] \<or> last a1 = CHR 0x0A \<Longrightarrow> CHR ''/'' \<notin> set a2 \<Longrightarrow>
   a2 = [] \<or> last a2 = CHR '' '' \<or> take 1 b = '')'' \<Longrightarrow> joinable a b"
  unfolding joinable_def by blast

lemma joinable_suffix:
  assumes "joinable (xs @ ys) b"
  shows "joinable ys b"
proof -
  from assms obtain a1 a2 where a: "xs @ ys = a1 @ a2" "a1 = [] \<or> last a1 = CHR 0x0A"
    "CHR ''/'' \<notin> set a2" "a2 = [] \<or> last a2 = CHR '' '' \<or> take 1 b = '')''"
    unfolding joinable_def by blast
  from a(1) consider us where "xs = a1 @ us" "us @ ys = a2" | us where "xs @ us = a1" "ys = us @ a2"
    by (auto simp: append_eq_append_conv2)
  then show ?thesis
  proof cases
    case 1
    have "CHR ''/'' \<notin> set ys" using 1(2) a(3) by auto
    moreover have "ys = [] \<or> last ys = CHR '' '' \<or> take 1 b = '')''"
      using 1(2) a(4) by (cases "ys = []") auto
    ultimately show ?thesis by (intro joinableI[of ys "[]" ys]) simp_all
  next
    case 2
    have "us = [] \<or> last us = CHR 0x0A" using 2(1) a(2) by (cases "us = []") auto
    then show ?thesis using 2(2) a(3,4) by (intro joinableI[of ys us a2]) simp_all
  qed
qed

lemma joinable_last:
  assumes "joinable a b" "a \<noteq> []"
  shows "last a = CHR 0x0A \<or> last a = CHR '' '' \<or> (take 1 b = '')'')"
proof -
  from assms obtain a1 a2 where a: "a = a1 @ a2" "a1 = [] \<or> last a1 = CHR 0x0A"
    "a2 = [] \<or> last a2 = CHR '' '' \<or> take 1 b = '')''"
    unfolding joinable_def by blast
  show ?thesis using a assms(2) by (cases "a2 = []") auto
qed

lemma joinable_drop: "joinable a b \<Longrightarrow> joinable (drop n a) b"
  using joinable_suffix[of "take n a" "drop n a" b] by simp

lemma joinable_dropWhile: "joinable a b \<Longrightarrow> joinable (dropWhile P a) b"
  using joinable_suffix[of "takeWhile P a" "dropWhile P a" b] by simp

lemma joinable_tl: "joinable (c # cs) b \<Longrightarrow> joinable cs b"
  using joinable_suffix[of "[c]" cs b] by simp

lemma no_split:
  assumes j: "joinable a b" and ne: "a \<noteq> []"
    and p1: "CHR 0x0A \<notin> set p" and p2: "CHR '')'' \<notin> set (tl p)" and p3: "CHR '' '' \<notin> set p"
  shows "prefix p (a @ b) = prefix p a"
proof
  assume "prefix p a" then show "prefix p (a @ b)" by (rule prefix_prefix)
next
  assume "prefix p (a @ b)"
  then have "prefix p a \<or> (\<exists>us. p = a @ us \<and> prefix us b)"
    by (simp add: prefix_append)
  then consider "prefix p a" | us where "p = a @ us" "prefix us b" "us \<noteq> []"
    by (metis append_Nil2 prefix_order.order_refl)
  then show "prefix p a"
  proof cases
    case 1 then show ?thesis .
  next
    case 2
    have la: "last a \<in> set p" using 2(1) ne by (metis Un_iff last_in_set set_append)
    have hu: "hd us \<in> set (tl p)" using 2(1,3) ne by (cases a) auto
    from joinable_last[OF j ne] consider "last a = CHR 0x0A" | "last a = CHR '' ''" | "take 1 b = '')''"
      by blast
    then show ?thesis
    proof cases
      case 1 with la p1 show ?thesis by simp
    next
      case 2 with la p3 show ?thesis by simp
    next
      case 3
      with \<open>prefix us b\<close> \<open>us \<noteq> []\<close> have "hd us = CHR '')''"
        by (cases us; cases b) auto
      with hu p2 show ?thesis by simp
    qed
  qed
qed

lemma lexemes_no_split:
  "(p, t) \<in> set lexemes \<Longrightarrow> CHR 0x0A \<notin> set p \<and> CHR '')'' \<notin> set (tl p) \<and> CHR '' '' \<notin> set p"
  by (auto simp: lexemes_def)

lemma find_lexeme_append:
  assumes "joinable (c # cs) b"
  shows "find (\<lambda>(p, t). prefix p (c # cs @ b)) lexemes = find (\<lambda>(p, t). prefix p (c # cs)) lexemes"
proof (rule find_cong[OF refl])
  fix x assume "x \<in> set lexemes"
  moreover obtain p t where xp: "x = (p, t)" by (cases x)
  ultimately have x: "x = (p, t)" "(p, t) \<in> set lexemes" by simp_all
  from lexemes_no_split[OF x(2)] have "prefix p ((c # cs) @ b) = prefix p (c # cs)"
    by (intro no_split[OF assms]) simp_all
  then
  show "(case x of (p, t) \<Rightarrow> prefix p (c # cs @ b)) = (case x of (p, t) \<Rightarrow> prefix p (c # cs))"
    using x by simp
qed

lemma find_lexeme_length:
  "find (\<lambda>(p, t). prefix p s) lexemes = Some (p, t) \<Longrightarrow> prefix p s \<and> p \<noteq> []"
  by (auto simp: find_Some_iff lexemes_def nth_Cons' split: if_splits)

lemma not_digit_chars: "\<not> is_digit (CHR 0x0A)" "\<not> is_digit (CHR '')'')" "\<not> is_digit (CHR '']'')"
  by (simp_all add: is_digit_def)

lemma joinable_nonterm:
  assumes "joinable (c # cs) b" "prefix ''//'' (c # cs)"
  shows "\<exists>x \<in> set cs. is_line_terminator x"
proof -
  from assms(2) obtain r where r: "c = CHR ''/''" "cs = CHR ''/'' # r" by (cases cs) auto
  from assms(1) obtain a1 a2 where a: "c # cs = a1 @ a2" "a1 = [] \<or> last a1 = CHR 0x0A"
    "CHR ''/'' \<notin> set a2" unfolding joinable_def by blast
  show ?thesis
  proof (cases a1)
    case Nil
    with a r show ?thesis by auto
  next
    case (Cons x a1')
    show ?thesis
    proof (cases a1')
      case Nil
      with Cons a r show ?thesis by auto
    next
      case (Cons y a1'')
      with \<open>a1 = x # a1'\<close> a r have y: "y = CHR ''/''" and l: "last (y # a1'') = CHR 0x0A"
        and sub: "set a1'' \<subseteq> set cs" by auto
      from y l have "a1'' \<noteq> []" "last a1'' = CHR 0x0A" by (auto split: if_splits)
      then have "CHR 0x0A \<in> set a1''" by (metis last_in_set)
      with sub show ?thesis by (auto simp: is_line_terminator_def)
    qed
  qed
qed

lemma not_digit_space: "\<not> is_digit (CHR '' '')"
  by (simp add: is_digit_def)

lemma joinable_digits:
  assumes "joinable (c # cs) b" "is_digit c"
  shows "takeWhile is_digit (cs @ b) = takeWhile is_digit cs \<and>
         dropWhile is_digit (cs @ b) = dropWhile is_digit cs @ b"
proof (cases "\<exists>x \<in> set cs. \<not> is_digit x")
  case True
  then show ?thesis by (auto simp: takeWhile_append1 dropWhile_append1)
next
  case False
  then have all: "\<forall>x \<in> set cs. is_digit x" by simp
  have "is_digit (last (c # cs))"
    using all assms(2) by (cases "cs = []") auto
  then have "last (c # cs) \<noteq> CHR 0x0A" "last (c # cs) \<noteq> CHR '' ''"
    using not_digit_chars(1) not_digit_space by metis+
  with joinable_last[OF assms(1)] have "take 1 b = '')''" by auto
  then obtain b' where "b = CHR '')'' # b'" by (cases b) auto
  then have tb: "takeWhile is_digit b = []" "dropWhile is_digit b = b"
    by (simp_all add: not_digit_chars)
  have t1: "takeWhile is_digit (cs @ b) = cs @ takeWhile is_digit b"
    using all by (simp add: takeWhile_append2)
  have t2: "takeWhile is_digit cs = cs" using all by (simp add: takeWhile_eq_all_conv)
  have d1: "dropWhile is_digit (cs @ b) = dropWhile is_digit b"
    using all by (simp add: dropWhile_append2)
  have d2: "dropWhile is_digit cs = []" using all by simp
  show ?thesis unfolding t1 t2 d1 d2 tb by simp
qed

lemma ends_line_joinable: "ends_line a \<Longrightarrow> joinable a b"
  unfolding joinable_def ends_line_def by (rule exI[of _ a], rule exI[of _ "[]"]) auto

lemma no_slash_joinable: "CHR ''/'' \<notin> set a \<Longrightarrow> take 1 b = '')'' \<Longrightarrow> joinable a b"
  by (auto intro: joinableI[of a "[]" a])


declare jslex.simps(2) [simp del]

lemma jslex_space: "is_js_space c \<Longrightarrow> jslex (c # cs) = jslex cs"
  by (simp add: jslex.simps(2))

lemma jslex_comment:
  "\<not> is_js_space c \<Longrightarrow> prefix ''//'' (c # cs) \<Longrightarrow>
   jslex (c # cs) = jslex (dropWhile (\<lambda>x. \<not> is_line_terminator x) cs)"
  by (subst jslex.simps(2)) (simp only: if_True if_False)

lemma jslex_digit:
  "\<not> is_js_space c \<Longrightarrow> \<not> prefix ''//'' (c # cs) \<Longrightarrow> is_digit c \<Longrightarrow>
   jslex (c # cs) =
     cons_tok (TNum (parseNat (takeWhile is_digit (c # cs)))) (jslex (dropWhile is_digit cs))"
  by (subst jslex.simps(2)) (simp only: if_True if_False)

lemma jslex_lexeme:
  "\<not> is_js_space c \<Longrightarrow> \<not> prefix ''//'' (c # cs) \<Longrightarrow> \<not> is_digit c \<Longrightarrow>
   jslex (c # cs) =
     (case find (\<lambda>(p, t). prefix p (c # cs)) lexemes of
        Some (p, t) \<Rightarrow> cons_tok t (jslex (drop (length p - 1) cs))
      | None \<Rightarrow> None)"
  by (subst jslex.simps(2)) (simp only: if_True if_False)

lemma jslex_append:
  "joinable a b \<Longrightarrow> jslex (a @ b) = lex_then (jslex a) (jslex b)"
proof (induction a rule: jslex.induct)
  case 1
  then show ?case by simp
next
  case (2 c cs)
  note j = "2.prems"
  have pc: "prefix ''//'' (c # cs @ b) = prefix ''//'' (c # cs)"
    using no_split[OF j, of "''//''"] by simp
  show ?case
  proof (cases "is_js_space c")
    case True
    have "jslex ((c # cs) @ b) = jslex (cs @ b)" using True by (simp add: jslex_space)
    also have "\<dots> = lex_then (jslex cs) (jslex b)" using "2.IH"(1)[OF True joinable_tl[OF j]] .
    also have "\<dots> = lex_then (jslex (c # cs)) (jslex b)" using True by (simp add: jslex_space)
    finally show ?thesis .
  next
    case sp: False
    show ?thesis
    proof (cases "prefix ''//'' (c # cs)")
      case True
      from joinable_nonterm[OF j True] obtain x where x: "x \<in> set cs" "is_line_terminator x" by blast
      have d: "dropWhile (\<lambda>x. \<not> is_line_terminator x) (cs @ b)
               = dropWhile (\<lambda>x. \<not> is_line_terminator x) cs @ b"
        using x by (simp add: dropWhile_append1)
      have jj: "joinable (dropWhile (\<lambda>x. \<not> is_line_terminator x) cs) b"
        using joinable_dropWhile[OF joinable_tl[OF j]] .
      have t': "prefix ''//'' (c # cs @ b)" using pc True by blast
      have "jslex ((c # cs) @ b) = jslex (dropWhile (\<lambda>x. \<not> is_line_terminator x) cs @ b)"
        using jslex_comment[OF sp t'] d by simp
      also have "\<dots> = lex_then (jslex (dropWhile (\<lambda>x. \<not> is_line_terminator x) cs)) (jslex b)"
        using "2.IH"(2)[OF sp True jj] .
      also have "\<dots> = lex_then (jslex (c # cs)) (jslex b)"
        using jslex_comment[OF sp True] by simp
      finally show ?thesis .
    next
      case cm: False
      have cm': "\<not> prefix ''//'' (c # cs @ b)" using pc cm by blast
      show ?thesis
      proof (cases "is_digit c")
        case True
        from joinable_digits[OF j True] have
          t: "takeWhile is_digit (cs @ b) = takeWhile is_digit cs" and
          d: "dropWhile is_digit (cs @ b) = dropWhile is_digit cs @ b" by auto
        have jj: "joinable (dropWhile is_digit cs) b"
          using joinable_dropWhile[OF joinable_tl[OF j]] .
        have "jslex ((c # cs) @ b) =
            cons_tok (TNum (parseNat (takeWhile is_digit (c # cs)))) (jslex (dropWhile is_digit cs @ b))"
          using jslex_digit[OF sp cm' True] t d True by simp
        also have "\<dots> = cons_tok (TNum (parseNat (takeWhile is_digit (c # cs))))
            (lex_then (jslex (dropWhile is_digit cs)) (jslex b))"
          using "2.IH"(3)[OF sp cm True jj] by simp
        also have "\<dots> = lex_then (jslex (c # cs)) (jslex b)"
          using jslex_digit[OF sp cm True] by (simp add: lex_then_cons_tok)
        finally show ?thesis .
      next
        case dg: False
        have f: "find (\<lambda>(p, t). prefix p (c # cs @ b)) lexemes
                 = find (\<lambda>(p, t). prefix p (c # cs)) lexemes"
          using find_lexeme_append[OF j] .
        show ?thesis
        proof (cases "find (\<lambda>(p, t). prefix p (c # cs)) lexemes")
          case None
          have "jslex ((c # cs) @ b) = None" using jslex_lexeme[OF sp cm' dg] f None by simp
          moreover have "jslex (c # cs) = None" using jslex_lexeme[OF sp cm dg] None by simp
          ultimately show ?thesis by simp
        next
          case (Some x)
          obtain p t where x: "x = (p, t)" by (cases x)
          from find_lexeme_length[OF Some[unfolded x]] have
            pl: "length p - 1 \<le> length cs" "p \<noteq> []"
            by (auto dest: prefix_length_le)
          have d: "drop (length p - 1) (cs @ b) = drop (length p - 1) cs @ b"
            using pl by simp
          have jj: "joinable (drop (length p - 1) cs) b"
            using joinable_drop[OF joinable_tl[OF j]] .
          have "jslex ((c # cs) @ b) = cons_tok t (jslex (drop (length p - 1) cs @ b))"
            using jslex_lexeme[OF sp cm' dg] f Some x d by simp
          also have "\<dots> = cons_tok t (lex_then (jslex (drop (length p - 1) cs)) (jslex b))"
            using "2.IH"(4)[OF sp cm dg Some[unfolded x] refl jj] by simp
          also have "\<dots> = lex_then (jslex (c # cs)) (jslex b)"
            using jslex_lexeme[OF sp cm dg] Some x by (simp add: lex_then_cons_tok)
          finally show ?thesis .
        qed
      qed
    qed
  qed
qed

lemma digit_val_digit_char: "k < 10 \<Longrightarrow> digit_val (digit_char k) = k"
proof -
  assume "k < 10"
  then have "k \<in> {0, 1, 2, 3, 4, 5, 6, 7, 8, 9}" by auto
  then show ?thesis by (auto simp: digit_val_def digit_char_def)
qed

lemma is_digit_digit_char: "k < 10 \<Longrightarrow> is_digit (digit_char k)"
proof -
  assume "k < 10"
  then have "k \<in> {0, 1, 2, 3, 4, 5, 6, 7, 8, 9}" by auto
  then show ?thesis by (auto simp: is_digit_def digit_char_def)
qed

declare show_nat.simps [simp del]

lemma show_nat_digits: "list_all is_digit (show_nat n) \<and> show_nat n \<noteq> []"
  by (induction n rule: show_nat.induct)
     (subst show_nat.simps, subst (2) show_nat.simps, auto simp: is_digit_digit_char)

lemma parseNat_snoc: "parseNat (ds @ [d]) = 10 * parseNat ds + digit_val d"
  by (simp add: parseNat_def)

lemma parseNat_show_nat: "parseNat (show_nat n) = n"
proof (induction n rule: show_nat.induct)
  case (1 n)
  show ?case
  proof (cases "n < 10")
    case True
    then show ?thesis
      by (subst show_nat.simps) (simp add: parseNat_def digit_val_digit_char)
  next
    case False
    with 1 show ?thesis
      by (subst show_nat.simps) (simp add: parseNat_snoc digit_val_digit_char)
  qed
qed

lemma jslex_show_nat:
  assumes "r = [] \<or> \<not> is_digit (hd r)"
  shows "jslex (show_nat n @ r) = cons_tok (TNum n) (jslex r)"
proof -
  from show_nat_digits[of n] obtain d ds where s: "show_nat n = d # ds"
    and dg: "is_digit d" "list_all is_digit ds"
    by (cases "show_nat n") auto
  have all: "\<forall>x \<in> set ds. is_digit x" using dg(2) by (simp add: list_all_iff)
  have r: "takeWhile is_digit r = []" "dropWhile is_digit r = r"
    using assms by (cases r; simp)+
  have nsp: "\<not> is_js_space d" using dg(1) by (auto simp: is_digit_def is_js_space_def)
  have ncm: "\<not> prefix ''//'' (d # ds @ r)" using dg(1) by (auto simp: is_digit_def)
  have t: "takeWhile is_digit (d # ds @ r) = d # ds"
    using dg(1) all r by (simp add: takeWhile_append2)
  have d: "dropWhile is_digit (ds @ r) = r"
    using all r by (simp add: dropWhile_append2)
  show ?thesis
    using jslex_digit[OF nsp ncm dg(1)] t d parseNat_show_nat[of n] s by simp
qed

lemma jslex_ref:
  assumes "b \<in> set ''AEM''"
  shows "jslex (''this.#'' @ [b] @ ''['' @ show_int i @ '']'' @ r)
         = lex_then (Some (ref_toks (bank_of_char b) i)) (jslex r)"
proof -
  have nd: "\<And>s. '']'' @ s = [] \<or> \<not> is_digit (hd ('']'' @ s))" by (simp add: not_digit_chars)
  have idx: "jslex (show_int i @ '']'' @ r) =
      lex_then (Some ((if i < 0 then [TMinus, TNum (nat (- i))] else [TNum (nat i)]) @ [TRBrk])) (jslex r)"
  proof (cases "i < 0")
    case True
    then show ?thesis
      using jslex_show_nat[OF nd, of "nat (- i)" r]
      by (cases "jslex r")
         (simp_all add: show_int_def jslex.simps(2) is_js_space_def is_digit_def lexemes_def cons_tok_def)
  next
    case False
    then show ?thesis
      using jslex_show_nat[OF nd, of "nat i" r]
      by (cases "jslex r")
         (simp_all add: show_int_def jslex.simps(2) is_js_space_def is_digit_def lexemes_def cons_tok_def)
  qed
  from assms consider "b = CHR ''A''" | "b = CHR ''E''" | "b = CHR ''M''" by auto
  then show ?thesis
  proof cases
    case 1
    then show ?thesis using idx
      by (cases "jslex r")
         (simp_all add: jslex.simps(2) is_js_space_def is_digit_def lexemes_def cons_tok_def ref_toks_def)
  next
    case 2
    then show ?thesis using idx
      by (cases "jslex r")
         (simp_all add: jslex.simps(2) is_js_space_def is_digit_def lexemes_def cons_tok_def ref_toks_def)
  next
    case 3
    then show ?thesis using idx
      by (cases "jslex r")
         (simp_all add: jslex.simps(2) is_js_space_def is_digit_def lexemes_def cons_tok_def ref_toks_def)
  qed
qed

lemma p_ref_ref_toks: "p_ref (ref_toks b i @ rest) = Some ((b, i), rest)"
  by (simp add: ref_toks_def p_ref_def p_index_def priv_bank_def num_val_def)

section \<open>Properties of the classifier and the generator\<close>

lemma push_command_wf:
  "list_all wf_command (commandArray st) \<Longrightarrow> wf_command \<lparr>type = t, instruction = p, blockNumber = length (commandArray st)\<rparr> \<Longrightarrow>
   list_all wf_command (commandArray (push_command t p st))"
  by (simp add: push_command_def)

lemma classify_wf:
  "list_all wf_command (commandArray st) \<Longrightarrow> list_all wf_command (commandArray (classify_part st p))"
  by (auto simp: classify_part_def push_command_def wf_command_def)

lemma foldl_classify_wf:
  "list_all wf_command (commandArray st) \<Longrightarrow>
   list_all wf_command (commandArray (foldl classify_part st ps))"
  by (induction ps arbitrary: st) (auto simp: classify_wf)

lemma generateCodeStructure_wf:
  "fst (generateCodeStructure t) = Some cmds \<Longrightarrow> list_all wf_command cmds"
  using foldl_classify_wf[of "\<lparr>commandArray = [], BracketCount = 0, invalidCommand = False, lex_errors = []\<rparr>" "codeParts_of t"]
  by (auto simp: generateCodeStructure_def Let_def lex_network_def check_brackets_def wf_command_def
      split: if_splits)

lemma gen_step_prefixed: "gen_step (prefixed pre ep st) c = prefixed pre ep (gen_step st c)"
  by (simp add: gen_step_def prefixed_def emit_def report_def close_block_def)

lemma foldl_gen_step_prefixed:
  "foldl gen_step (prefixed pre ep st) cs = prefixed pre ep (foldl gen_step st cs)"
  by (induction cs arbitrary: st) (simp_all add: gen_step_prefixed)

lemma fresh_prefixed: "fresh st \<Longrightarrow> st = prefixed (JSCode st) (gen_errors st) gen_init"
  by (simp add: fresh_def prefixed_def gen_init_def)

lemma gen_run_append_fresh:
  "fresh (gen_run xs) \<Longrightarrow>
   gen_run (xs @ ys) = prefixed (JSCode (gen_run xs)) (gen_errors (gen_run xs)) (gen_run ys)"
proof -
  assume f: "fresh (gen_run xs)"
  have "gen_run (xs @ ys) = foldl gen_step (gen_run xs) ys" by (simp add: gen_run_def)
  also have "\<dots> = foldl gen_step (prefixed (JSCode (gen_run xs)) (gen_errors (gen_run xs)) gen_init) ys"
    using fresh_prefixed[OF f] by simp
  also have "\<dots> = prefixed (JSCode (gen_run xs)) (gen_errors (gen_run xs)) (gen_run ys)"
    by (simp add: foldl_gen_step_prefixed gen_run_def)
  finally show ?thesis .
qed

lemma mode_ok_step: "mode_ok st \<Longrightarrow> mode_ok (gen_step st c)"
  by (simp add: mode_ok_def gen_step_def emit_def report_def close_block_def)

lemma mode_ok_run: "mode_ok (gen_run cs)"
proof -
  have "\<And>st. mode_ok st \<Longrightarrow> mode_ok (foldl gen_step st cs)"
    by (induction cs) (simp_all add: mode_ok_step)
  then show ?thesis by (simp add: gen_run_def mode_ok_def gen_init_def)
qed

lemma isNewBlock_fresh: "isNewBlock (gen_run cs) \<Longrightarrow> fresh (gen_run cs)"
  using mode_ok_run[of cs] by (auto simp: mode_ok_def fresh_def)

lemma show_nat_no_slash: "CHR ''/'' \<notin> set (show_nat n)"
proof
  assume "CHR ''/'' \<in> set (show_nat n)"
  with show_nat_digits[of n] have "is_digit (CHR ''/'')" by (auto simp: list_all_iff)
  then show False by (simp add: is_digit_def)
qed

lemma show_int_no_slash: "CHR ''/'' \<notin> set (show_int i)"
  by (simp add: show_int_def show_nat_no_slash)

lemma operand_ref_valid:
  "validOperandsRegex (instruction c) \<Longrightarrow>
   \<exists>b ds. instruction c = b # ds \<and> b \<in> set ''AEM'' \<and>
     operand_ref c = ''this.#'' @ [b] @ ''['' @ show_int (parseInt ds - 1) @ '']'' \<and>
     target_of c = (bank_of_char b, parseInt ds - 1)"
  by (cases "instruction c") (auto simp: validOperandsRegex_def operand_ref_def target_of_def)

lemma operand_ref_no_slash:
  "validOperandsRegex (instruction c) \<Longrightarrow> CHR ''/'' \<notin> set (operand_ref c)"
  using operand_ref_valid[of c] show_int_no_slash by auto

lemma jslex_operand_ref:
  assumes "validOperandsRegex (instruction c)"
  shows "jslex (operand_ref c @ r)
         = lex_then (Some (ref_toks (fst (target_of c)) (snd (target_of c)))) (jslex r)"
proof -
  from operand_ref_valid[OF assms] obtain b ds where
    "b \<in> set ''AEM''" "operand_ref c = ''this.#'' @ [b] @ ''['' @ show_int (parseInt ds - 1) @ '']''"
    "target_of c = (bank_of_char b, parseInt ds - 1)" by blast
  then show ?thesis using jslex_ref[of b "parseInt ds - 1" r] by simp
qed

lemma gen_step_open:
  assumes "fresh st" "type c = 1"
  shows "gen_step st c =
     st\<lparr>openIfBlock := True, isNewBlock := False,
        JSCode := JSCode st @ (if instruction c = ''NOT'' then ''if( !'' else ''if( '')\<rparr>"
  using assms by (simp add: gen_step_def fresh_def emit_def)

lemma cond_inv_open:
  assumes "type c = 1"
  shows "cond_inv (gen_step gen_init c)"
  using gen_step_open[of gen_init c] assms
  by (simp add: cond_inv_def in_condition_def fresh_def gen_init_def)

lemma cond_inv_step:
  assumes "cond_inv st" "wf_command c" "type c = 1 \<or> type c = 3 \<or> type c = 4"
  shows "cond_inv (gen_step st c)"
proof -
  from assms(1) have ic: "\<not> isNewBlock st" "openIfBlock st" "lastInstruction st = []"
    and t3: "take 3 (JSCode st) = ''if(''" and ns: "CHR ''/'' \<notin> set (drop 3 (JSCode st))"
    by (simp_all add: cond_inv_def in_condition_def)
  have "length (take 3 (JSCode st)) = 3" using t3 by simp
  then have len: "3 \<le> length (JSCode st)" by simp
  have app: "\<And>x. CHR ''/'' \<notin> set x \<Longrightarrow> cond_inv (st\<lparr>JSCode := JSCode st @ x\<rparr>)"
    using ic t3 ns len by (simp add: cond_inv_def in_condition_def)
  from assms(3) consider (op) "type c = 1" | (opnd) "type c = 3" | (br) "type c = 4" by blast
  then show ?thesis
  proof cases
    case op
    with assms(2) have "instruction c \<in> set validlogicalOperations" by (auto simp: wf_command_def)
    then consider "instruction c = ''U''" | "instruction c = ''O''" | "instruction c = ''X''"
      | "instruction c = ''NOT''" | "instruction c = ''UN''" | "instruction c = ''ON''"
      by (auto simp: validlogicalOperations_def)
    then show ?thesis
      using op ic app[of "'' && ''"] app[of "'' || ''"] app[of "'' !==''"] app[of "'' !''"]
        app[of "'' && !''"] app[of "'' || !''"]
      by cases (simp_all add: gen_step_def emit_def)
  next
    case opnd
    with assms(2) have v: "validOperandsRegex (instruction c)" by (auto simp: wf_command_def)
    show ?thesis using opnd ic app[OF operand_ref_no_slash[OF v]]
      by (simp add: gen_step_def emit_def)
  next
    case br
    show ?thesis using br ic app[of "'' ( ''"] app[of "'' ) ''"]
      by (simp add: gen_step_def emit_def)
  qed
qed

lemma cond_inv_foldl:
  "cond_inv st \<Longrightarrow> list_all wf_command cs \<Longrightarrow>
   list_all (\<lambda>c. type c = 1 \<or> type c = 3 \<or> type c = 4) cs \<Longrightarrow> cond_inv (foldl gen_step st cs)"
  by (induction cs arbitrary: st) (simp_all add: cond_inv_step)

lemma cond_inv_condition:
  "is_condition cond \<Longrightarrow> list_all wf_command cond \<Longrightarrow> cond_inv (gen_run cond)"
  by (cases cond) (auto simp: is_condition_def gen_run_def intro!: cond_inv_foldl cond_inv_open)

lemma gen_step_close:
  assumes "in_condition st" "wf_command ins" "type ins = 2" "type tgt = 3"
  shows "gen_step (gen_step st ins) tgt =
     st\<lparr>lastInstruction := [], openIfBlock := False, isNewBlock := True,
        JSCode := JSCode st @ closing_code (instruction ins) tgt\<rparr>"
proof -
  from assms(2,3) consider "instruction ins = ''S''" | "instruction ins = ''R''" | "instruction ins = ''=''"
    by (auto simp: wf_command_def validInstructions_def)
  then show ?thesis
    using assms(1,3,4)
    by cases (simp_all add: gen_step_def in_condition_def emit_def close_block_def closing_code_def)
qed

lemma statement_code:
  assumes "is_condition cond" "list_all wf_command cond" "wf_command ins" "type ins = 2" "type tgt = 3"
  shows "JSCode (gen_run (cond @ [ins, tgt])) = JSCode (gen_run cond) @ closing_code (instruction ins) tgt"
    and "fresh (gen_run (cond @ [ins, tgt]))"
proof -
  have ic: "in_condition (gen_run cond)"
    using cond_inv_condition[OF assms(1,2)] by (simp add: cond_inv_def)
  have "gen_run (cond @ [ins, tgt]) = gen_step (gen_step (gen_run cond) ins) tgt"
    by (simp add: gen_run_def)
  with gen_step_close[OF ic assms(3,4,5)] show
    "JSCode (gen_run (cond @ [ins, tgt])) = JSCode (gen_run cond) @ closing_code (instruction ins) tgt"
    "fresh (gen_run (cond @ [ins, tgt]))"
    by (simp_all add: fresh_def)
qed








section \<open>The code of one statement\<close>

lemma jslex_if: "jslex (''if('' @ r) = cons_tok TIf (cons_tok TLP (jslex r))"
  by (simp add: jslex.simps(2) is_js_space_def is_digit_def lexemes_def)

lemma jslex_closing:
  assumes "validOperandsRegex (instruction tgt)"
  shows "jslex (closing_code i tgt) = Some (closing_toks i tgt)"
  using jslex_operand_ref[OF assms]
  by (simp add: closing_code_def closing_toks_def Let_def jslex.simps(2) is_js_space_def is_digit_def
      lexemes_def cons_tok_def)

lemma closing_code_shape:
  "take 1 (closing_code i tgt @ q) = '')''" "ends_line (closing_code i tgt)"
  by (simp_all add: closing_code_def ends_line_def)

lemma p_stmt_assign_ref:
  "p_stmt (ref_toks b i @ TAssign # v # TSemi # r) =
     (if v = TTrue then Some (SAssign b i True, r)
      else if v = TFalse then Some (SAssign b i False, r) else None)"
proof -
  obtain ts where ts: "ref_toks b i = TThis # ts" by (simp add: ref_toks_def)
  have "p_ref (TThis # ts @ TAssign # v # TSemi # r) = Some ((b, i), TAssign # v # TSemi # r)"
    using p_ref_ref_toks[of b i "TAssign # v # TSemi # r"] ts by simp
  then have "p_target (TThis # ts @ TAssign # v # TSemi # r) = Some ((b, i), v # TSemi # r)"
    by (simp add: p_target_def)
  then show ?thesis using ts by (simp add: p_stmt_other)
qed

lemma p_block_assign:
  assumes "v = TTrue \<or> v = TFalse"
  shows "p_block (ref_toks b i @ TAssign # v # TSemi # TRB # r) = Some (SSeq (SAssign b i (v = TTrue)) SEmpty, r)"
proof -
  obtain ts where ts: "ref_toks b i = TThis # ts" by (simp add: ref_toks_def)
  have e: "expect TRB (ref_toks b i @ TAssign # v # TSemi # TRB # r) = None" using ts by simp
  show ?thesis
    using assms p_stmt_assign_ref[of b i v "TRB # r"]
    by (subst p_block_stmt[OF e]) (auto simp: p_block_RB)
qed

lemma p_stmt_compiled:
  assumes c: "p_bin 3 ctoks = Some (e, [])" and ne: "\<not> starts_else tq"
  shows "p_stmt (TIf # TLP # ctoks @ closing_toks i tgt @ tq) = Some (compiled_stmt i e tgt, tq)"
proof -
  define b where "b = fst (target_of tgt)"
  define k where "k = snd (target_of tgt)"
  have pb: "\<And>rest. p_bin 3 (ctoks @ TRP # rest) = Some (e, TRP # rest)"
    using p_append(1)[OF c, of "TRP # _"] by (simp add: stops_def)
  have ex: "expect TElse tq = None" using ne by (cases tq) (auto simp: starts_else_def)
  consider (S) "i = ''S''" | (R) "i \<noteq> ''S''" "i = ''R''" | (A) "i \<noteq> ''S''" "i \<noteq> ''R''" by blast
  then show ?thesis
  proof cases
    case S
    have "p_stmt (TIf # TLP # ctoks @ TRP # TLB # ref_toks b k @ TAssign # TTrue # TSemi # TRB # tq)
        = Some (SIf e (SSeq (SAssign b k True) SEmpty) SEmpty, tq)"
      using pb ex p_block_assign[of TTrue b k tq]
      by (simp add: p_stmt_If p_stmt_LB)
    then show ?thesis using S by (simp add: closing_toks_def compiled_stmt_def b_def k_def Let_def)
  next
    case R
    have "p_stmt (TIf # TLP # ctoks @ TRP # TLB # ref_toks b k @ TAssign # TFalse # TSemi # TRB # tq)
        = Some (SIf e (SSeq (SAssign b k False) SEmpty) SEmpty, tq)"
      using pb ex p_block_assign[of TFalse b k tq]
      by (simp add: p_stmt_If p_stmt_LB)
    then show ?thesis using R by (simp add: closing_toks_def compiled_stmt_def b_def k_def Let_def)
  next
    case A
    have "p_stmt (TIf # TLP # ctoks @ TRP # TLB # ref_toks b k @ TAssign # TTrue # TSemi # TRB #
            TElse # TLB # ref_toks b k @ TAssign # TFalse # TSemi # TRB # tq)
        = Some (SIf e (SSeq (SAssign b k True) SEmpty) (SSeq (SAssign b k False) SEmpty), tq)"
      using pb p_block_assign[of TTrue b k "TElse # TLB # ref_toks b k @ TAssign # TFalse # TSemi # TRB # tq"]
        p_block_assign[of TFalse b k tq]
      by (simp add: p_stmt_If p_stmt_LB)
    then show ?thesis using A by (simp add: closing_toks_def compiled_stmt_def b_def k_def Let_def)
  qed
qed

lemma exec_compiled:
  "eval_expr e s = Inr v \<Longrightarrow>
   exec_stmt (compiled_stmt (instruction ins) e tgt) s = (None, statement_effect ins tgt v s)"
  by (simp add: compiled_stmt_def statement_effect_def write_target_def Let_def)

lemma exec_stmts_append:
  "exec_stmts (p @ q) s =
     (case exec_stmts p s of (None, s') \<Rightarrow> exec_stmts q s' | (Some x, s') \<Rightarrow> (Some x, s'))"
  by (induction p arbitrary: s) (auto split: prod.splits option.splits)

lemma parses_append:
  assumes "joinable a b" "parses a pa" "parses b pb"
  shows "parses (a @ b) (pa @ pb)"
proof -
  from assms(2) obtain ta where ta: "jslex a = Some ta" "p_program ta = Some pa"
    by (auto simp: parses_def split: option.splits)
  from assms(3) obtain tb where tb: "jslex b = Some tb" "p_program tb = Some pb"
    by (auto simp: parses_def split: option.splits)
  have "jslex (a @ b) = Some (ta @ tb)"
    using jslex_append[OF assms(1)] ta tb by simp
  then show ?thesis using p_program_append[OF ta(2) tb(2)] by (simp add: parses_def)
qed

lemma run_code_parses: "parses code prog \<Longrightarrow> run_code code s = exec_stmts prog s"
  by (auto simp: parses_def run_code_def split: option.splits)

lemma parses_statement:
  assumes cond: "is_condition cond" "list_all wf_command cond"
    and e: "cond_expr cond = Some e"
    and tgt: "validOperandsRegex (instruction tgt)"
    and q: "parses q pq"
  shows "parses (JSCode (gen_run cond) @ closing_code i tgt @ q) (compiled_stmt i e tgt # pq)"
proof -
  define G where "G = JSCode (gen_run cond)"
  define D where "D = drop 3 G"
  from cond_inv_condition[OF cond] have t3: "take 3 G = ''if(''" and ns: "CHR ''/'' \<notin> set D"
    by (simp_all add: cond_inv_def G_def D_def)
  have G: "G = ''if('' @ D" using t3 append_take_drop_id[of 3 G] by (simp add: D_def)
  from e obtain ctoks where ct: "jslex D = Some ctoks" "p_bin 3 ctoks = Some (e, [])"
    by (auto simp: cond_expr_def G_def D_def split: option.splits if_splits)
  from q obtain tq where tq: "jslex q = Some tq" "p_program tq = Some pq"
    by (auto simp: parses_def split: option.splits)
  have j1: "joinable D (closing_code i tgt @ q)"
    using ns closing_code_shape(1)[of i tgt q] by (rule no_slash_joinable)
  have l2: "jslex (closing_code i tgt @ q) = Some (closing_toks i tgt @ tq)"
    using jslex_append[OF ends_line_joinable[OF closing_code_shape(2)], of i tgt q]
      jslex_closing[OF tgt] tq by simp
  have l1: "jslex (D @ closing_code i tgt @ q) = Some (ctoks @ closing_toks i tgt @ tq)"
    using jslex_append[OF j1] ct l2 by simp
  have l0: "jslex (G @ closing_code i tgt @ q) = Some (TIf # TLP # ctoks @ closing_toks i tgt @ tq)"
    using jslex_if[of "D @ closing_code i tgt @ q"] l1 G by (simp add: cons_tok_def)
  have ps: "p_stmt (TIf # TLP # ctoks @ closing_toks i tgt @ tq) = Some (compiled_stmt i e tgt, tq)"
    using p_stmt_compiled[OF ct(2) p_program_not_else[OF tq(2)]] .
  have "p_program (TIf # TLP # ctoks @ closing_toks i tgt @ tq) = Some (compiled_stmt i e tgt # pq)"
    using ps tq(2) by (subst p_program_Cons) simp_all
  with l0 show ?thesis by (simp add: parses_def G_def)
qed

lemma wf_target: "wf_command tgt \<Longrightarrow> type tgt = 3 \<Longrightarrow> validOperandsRegex (instruction tgt)"
  by (auto simp: wf_command_def)

lemma eval_expr_banks:
  "E s' = E s \<Longrightarrow> A s' = A s \<Longrightarrow> M s' = M s \<Longrightarrow> eval_expr e s' = eval_expr e s"
proof (induction e)
  case (ERef b i)
  then show ?case by (cases b) simp_all
qed (auto split: sum.splits binop.splits)

section \<open>Programs of several networks\<close>

lemma compiles_alone_parses: "compiles_alone t \<Longrightarrow> parses (net_code t) (net_prog t)"
  by (auto simp: compiles_alone_def parses_def net_prog_def split: option.splits)

lemma net_cmds_snoc:
  "fst (generateCodeStructure t) \<noteq> None \<Longrightarrow> \<exists>cs c. net_cmds t = cs @ [c] \<and> type c = 6"
  by (auto simp: net_cmds_def generateCodeStructure_def Let_def split: if_splits)

lemma net_code_ends_line: "fst (generateCodeStructure t) \<noteq> None \<Longrightarrow> ends_line (net_code t)"
proof -
  assume "fst (generateCodeStructure t) \<noteq> None"
  from net_cmds_snoc[OF this] obtain cs c where c: "net_cmds t = cs @ [c]" "type c = 6" by blast
  then show ?thesis
    by (simp add: net_code_def gen_run_def gen_step_def emit_def ends_line_def)
qed

lemma load_network_ok:
  "fst (generateCodeStructure t) \<noteq> None \<Longrightarrow>
   load_network acc t = acc\<lparr>acc_commands := acc_commands acc @ net_cmds t,
                          acc_errors := acc_errors acc @ snd (generateCodeStructure t)\<rparr>"
  by (cases "generateCodeStructure t") (auto simp: load_network_def net_cmds_def)

lemma foldl_load_network_ok:
  "list_all (\<lambda>t. fst (generateCodeStructure t) \<noteq> None) nets \<Longrightarrow>
   acc_commands (foldl load_network acc nets) = acc_commands acc @ concat (map net_cmds nets) \<and>
   acc_invalid (foldl load_network acc nets) = acc_invalid acc"
  by (induction nets arbitrary: acc) (simp_all add: load_network_ok)

lemma fresh_append:
  "fresh (gen_run xs) \<Longrightarrow> fresh (gen_run ys) \<Longrightarrow> fresh (gen_run (xs @ ys))"
  by (simp add: gen_run_append_fresh) (simp add: fresh_def prefixed_def)

lemma gen_run_Nil: "gen_run [] = gen_init"
  by (simp add: gen_run_def)

lemma gen_run_concat:
  "list_all (\<lambda>t. isNewBlock (gen_run (net_cmds t))) nets \<Longrightarrow>
   fresh (gen_run (concat (map net_cmds nets))) \<and>
   JSCode (gen_run (concat (map net_cmds nets))) = concat (map net_code nets)"
proof (induction nets)
  case Nil
  then show ?case by (simp add: gen_run_Nil fresh_def gen_init_def)
next
  case (Cons t nets)
  then have f: "fresh (gen_run (net_cmds t))" and
    ih: "fresh (gen_run (concat (map net_cmds nets)))"
      "JSCode (gen_run (concat (map net_cmds nets))) = concat (map net_code nets)"
    by (simp_all add: isNewBlock_fresh)
  show ?case using fresh_append[OF f ih(1)] gen_run_append_fresh[OF f, of "concat (map net_cmds nets)"] ih(2)
    by (simp add: prefixed_def net_code_def[symmetric])
qed

lemma parses_concat:
  "list_all compiles_alone nets \<Longrightarrow>
   parses (concat (map net_code nets)) (concat (map net_prog nets))"
proof (induction nets)
  case Nil
  then show ?case by (simp add: parses_def p_program_Nil)
next
  case (Cons t nets)
  then have c: "compiles_alone t" and ih: "parses (concat (map net_code nets)) (concat (map net_prog nets))"
    by simp_all
  have el: "ends_line (net_code t)" using c by (simp add: compiles_alone_def net_code_ends_line)
  show ?case using parses_append[OF ends_line_joinable[OF el] compiles_alone_parses[OF c] ih] by simp
qed

lemma run_networks_exec:
  "list_all compiles_alone nets \<Longrightarrow> run_networks nets s = exec_stmts (concat (map net_prog nets)) s"
proof (induction nets arbitrary: s)
  case Nil
  then show ?case by simp
next
  case (Cons t nets)
  then have c: "compiles_alone t" and rest: "list_all compiles_alone nets" by simp_all
  show ?case
    using run_code_parses[OF compiles_alone_parses[OF c], of s] Cons.IH[OF rest]
    by (auto simp: exec_stmts_append split: prod.splits option.splits)
qed

text \<open>A write and the next read of the same register, and a network of one statement.\<close>

lemma run_networks_append:
  "run_networks (xs @ ys) s =
     (case run_networks xs s of (None, s') \<Rightarrow> run_networks ys s' | (Some x, s') \<Rightarrow> (Some x, s'))"
  by (induction xs arbitrary: s) (auto split: prod.splits option.splits)

lemma arr_get_set: "length (elems a) \<le> 4294967295 \<Longrightarrow> arr_get (arr_set a i v) i = v"
  by (auto simp: arr_get_def arr_set_def nth_append)

lemma get_set_bank: "get_bank b (set_bank b a s) = a"
  by (cases b) simp_all

lemma value_after_effect:
  assumes "length (elems (get_bank (fst (target_of tgt)) s)) \<le> 4294967295"
  shows "arr_get (get_bank (fst (target_of tgt)) (statement_effect ins tgt v s)) (snd (target_of tgt)) =
         value_after ins v (arr_get (get_bank (fst (target_of tgt)) s) (snd (target_of tgt)))"
  using assms
  by (simp add: statement_effect_def write_target_def value_after_def get_set_bank arr_get_set)

lemma parses_end_of_network: "parses (''; // End of Network'' @ [CHR 0x0A]) [SEmpty]"
  by code_simp

lemma one_statement_run:
  assumes t: "one_statement t cond ins tgt" and e: "cond_expr cond = Some e"
    and v: "eval_expr e s = Inr v"
  shows "run_code (net_code t) s = (None, statement_effect ins tgt v s)"
proof -
  define eon where "eon = \<lparr>type = 6, instruction = '';'', blockNumber = length cond + 2\<rparr>"
  from t have g: "fst (generateCodeStructure t) = Some (cond @ [ins, tgt] @ [eon])"
    and c: "is_condition cond" and ti: "type ins = 2" and tt: "type tgt = 3"
    by (simp_all add: one_statement_def eon_def)
  from generateCodeStructure_wf[OF g] have wfc: "list_all wf_command cond"
    and wfi: "wf_command ins" and wft: "wf_command tgt" by simp_all
  have n: "net_cmds t = (cond @ [ins, tgt]) @ [eon]" using g by (simp add: net_cmds_def)
  have f: "fresh (gen_run (cond @ [ins, tgt]))"
    and j: "JSCode (gen_run (cond @ [ins, tgt])) = JSCode (gen_run cond) @ closing_code (instruction ins) tgt"
    using statement_code[OF c wfc wfi ti tt] by simp_all
  have en: "JSCode (gen_run [eon]) = ''; // End of Network'' @ [CHR 0x0A]"
    by (simp add: gen_run_def gen_step_def emit_def gen_init_def eon_def)
  have "net_code t = JSCode (gen_run cond) @ closing_code (instruction ins) tgt @ JSCode (gen_run [eon])"
    using gen_run_append_fresh[OF f, of "[eon]"] j n by (simp add: net_code_def prefixed_def)
  moreover have "parses (JSCode (gen_run cond) @ closing_code (instruction ins) tgt @ JSCode (gen_run [eon]))
      (compiled_stmt (instruction ins) e tgt # [SEmpty])"
    using parses_statement[OF c wfc e wf_target[OF wft tt]] parses_end_of_network en by simp
  ultimately have "parses (net_code t) [compiled_stmt (instruction ins) e tgt, SEmpty]" by simp
  from run_code_parses[OF this] show ?thesis using exec_compiled[OF v, of ins tgt] by simp
qed

lemma parseInt_nonneg: "0 \<le> parseInt ds"
  by (simp add: parseInt_def)

section \<open>Loading\<close>

text \<open>
  C1 as stated: every compile-time error, an open statement at the end of a network
  among them, makes \<^verbatim>\<open>loadCode\<close> report it and return -1. It does not: the text
  \<^verbatim>\<open>U E1\<close> opens a statement and never ends it, yet \<^verbatim>\<open>loadCode\<close> returns 0 and
  reports nothing. The generator is still inside the condition when the commands end.
\<close>

theorem C1_counterexample:
  "fst (loadCode (Text ''U E1'') (SPS_new 2 2 2)) = 0 \<and>
   fst (snd (loadCode (Text ''U E1'') (SPS_new 2 2 2))) = [] \<and>
   fst (generateCodeStructure ''U E1'') =
     Some [\<lparr>type = 1, instruction = ''U'', blockNumber = 0\<rparr>,
           \<lparr>type = 3, instruction = ''E1'', blockNumber = 1\<rparr>,
           \<lparr>type = 6, instruction = '';'', blockNumber = 2\<rparr>] \<and>
   openIfBlock (gen_run (the (fst (generateCodeStructure ''U E1''))))"
  by code_simp

text \<open>
  C1, amended: when a network of the argument holds a piece of no known class, or
  opening and closing brackets of different number, \<^verbatim>\<open>loadCode\<close> returns -1 and reports
  at least one message. The end of a network is not checked: the generator appends
  the line \<^verbatim>\<open>; // End of Network\<close> and changes nothing else of its state, whether a
  statement is open or not.
\<close>

theorem C1_amended:
  "(t \<in> set (networks_of inp) \<and> (has_invalid_token t \<or> unbalanced_brackets t) \<longrightarrow>
      fst (loadCode inp s) = - 1 \<and> fst (snd (loadCode inp s)) \<noteq> []) \<and>
   (type c = 6 \<longrightarrow>
      gen_step st c = st\<lparr>JSCode := JSCode st @ ''; // End of Network'' @ [CHR 0x0A]\<rparr>)"
proof (rule conjI; rule impI)
  assume a: "t \<in> set (networks_of inp) \<and> (has_invalid_token t \<or> unbalanced_brackets t)"
  then have f: "fst (generateCodeStructure t) = None" "snd (generateCodeStructure t) \<noteq> []"
    using generateCodeStructure_fails[of t] by auto
  show "fst (loadCode inp s) = - 1 \<and> fst (snd (loadCode inp s)) \<noteq> []"
  proof (cases inp)
    case (Text u)
    with a have "u = t" by simp
    with Text f show ?thesis
      by (cases "generateCodeStructure t") (auto simp: loadCode_def codeArray_of_def)
  next
    case (Networks nets)
    with a have "t \<in> set nets" by simp
    from foldl_load_network[OF this f] Networks show ?thesis
      by (auto simp: loadCode_def codeArray_of_def load_networks_def)
  qed
next
  assume "type c = 6"
  then show "gen_step st c = st\<lparr>JSCode := JSCode st @ ''; // End of Network'' @ [CHR 0x0A]\<rparr>"
    by (simp add: gen_step_def emit_def)
qed

theorem C1_amended_witness:
  "has_invalid_token ''U E1 FOO'' \<and>
   fst (loadCode (Text ''U E1 FOO'') (SPS_new 2 2 2)) = - 1 \<and>
   fst (snd (loadCode (Text ''U E1 FOO'') (SPS_new 2 2 2))) \<noteq> [] \<and>
   unbalanced_brackets ''U ( E1'' \<and>
   fst (loadCode (Networks [''U E1 = A1'', ''U ( E1'']) (SPS_new 2 2 2)) = - 1 \<and>
   fst (snd (loadCode (Networks [''U E1 = A1'', ''U ( E1'']) (SPS_new 2 2 2))) \<noteq> [] \<and>
   gen_step gen_init \<lparr>type = 6, instruction = '';'', blockNumber = 0\<rparr> =
     gen_init\<lparr>JSCode := ''; // End of Network'' @ [CHR 0x0A]\<rparr>"
proof -
  have h1: "has_invalid_token ''U E1 FOO''" by code_simp
  have h2: "unbalanced_brackets ''U ( E1''" by code_simp
  have h3: "type \<lparr>type = 6, instruction = '';'', blockNumber = 0\<rparr> = 6" by simp
  from C1_amended[of "''U E1 FOO''" "Text ''U E1 FOO''" "SPS_new 2 2 2"
      "\<lparr>type = 6, instruction = '';'', blockNumber = 0\<rparr>" gen_init]
    C1_amended[of "''U ( E1''" "Networks [''U E1 = A1'', ''U ( E1'']" "SPS_new 2 2 2"
      "\<lparr>type = 6, instruction = '';'', blockNumber = 0\<rparr>" gen_init]
    h1 h2
  show ?thesis by (simp add: gen_init_def)
qed

text \<open>
  C2 as stated: a failing \<^verbatim>\<open>loadCode\<close> leaves the program loaded before in place.
  It does not: after \<^verbatim>\<open>U E1 = A1\<close> is loaded, loading \<^verbatim>\<open>U ( E1\<close> fails and the
  stored program is no longer the one loaded before.
\<close>

theorem C2_counterexample:
  "fst (loadCode (Text ''U E1 = A1'') (SPS_new 2 2 2)) = 0 \<and>
   fst (loadCode (Text ''U ( E1'') (snd (snd (loadCode (Text ''U E1 = A1'') (SPS_new 2 2 2))))) = - 1 \<and>
   SPSCode (snd (snd (loadCode (Text ''U ( E1'') (snd (snd (loadCode (Text ''U E1 = A1'') (SPS_new 2 2 2)))))))
     \<noteq> SPSCode (snd (snd (loadCode (Text ''U E1 = A1'') (SPS_new 2 2 2))))"
  by code_simp

text \<open>
  C2, amended: a failing \<^verbatim>\<open>loadCode\<close> replaces the stored program by the empty
  string (and records its argument); nothing else of the controller changes.
\<close>

theorem C2_failed_load_clears:
  "fst (loadCode inp s) = - 1 \<Longrightarrow>
   snd (snd (loadCode inp s)) = s\<lparr>this_codeInput := Some inp, SPSCode := Some []\<rparr>"
  by (auto simp: loadCode_def split: prod.splits option.splits if_splits)

theorem C2_failed_load_clears_witness:
  "fst (loadCode (Text ''U E1 FOO'') (SPS_new 2 2 2)) = - 1 \<and>
   snd (snd (loadCode (Text ''U E1 FOO'') (SPS_new 2 2 2)))
     = (SPS_new 2 2 2)\<lparr>this_codeInput := Some (Text ''U E1 FOO''), SPSCode := Some []\<rparr>"
proof -
  have h: "fst (loadCode (Text ''U E1 FOO'') (SPS_new 2 2 2)) = - 1" by code_simp
  show ?thesis using h C2_failed_load_clears[OF h] by simp
qed

section \<open>Execution of a scan\<close>



text \<open>
  C5. Networks that each compile alone, with operand numbers below \<open>2^53\<close>, load as one
  program, the concatenation of their codes in the order supplied. A scan of it runs
  the networks one after the other in that order, each on the registers the one before
  left, which is to run the statements of all networks once, in order, on one state.
  A write is seen by the network that follows: when a network of one statement with
  target \<open>tgtA\<close> has run and the next network is one statement whose condition is
  that register, the condition has the value the first statement left there (true
  after \<^verbatim>\<open>=\<close> or \<^verbatim>\<open>S\<close> with a truthy condition, false after \<^verbatim>\<open>=\<close> with a falsy
  or \<^verbatim>\<open>R\<close> with a truthy condition, the value held before otherwise), and the
  second statement acts on that value. The bank written holds at most \<open>2^32 - 1\<close>
  elements, as every JavaScript array does.
\<close>

theorem C5_networks_run_in_order:
  assumes "list_all compiles_alone nets" "nets \<noteq> []" "list_all exact_operands nets"
  shows "fst (loadCode (Networks nets) s) = 0 \<and>
         SPSCode (snd (snd (loadCode (Networks nets) s))) = Some (concat (map net_code nets)) \<and>
         SPSRuntime (snd (snd (loadCode (Networks nets) s))) =
           (case run_networks nets
                   ((snd (snd (loadCode (Networks nets) s)))\<lparr>RuntimeCounter := RuntimeCounter s + 1\<rparr>) of
              (None, s2) \<Rightarrow> (None, s2\<lparr>this_dataReady := Some (JBool True)\<rparr>)
            | (Some x, s2) \<Rightarrow> (Some x, s2)) \<and>
         run_networks nets s' = exec_stmts (concat (map net_prog nets)) s' \<and>
         (nets = before @ [tA, tB] @ after \<and>
          one_statement tA condA insA tgtA \<and> cond_expr condA = Some eA \<and>
          one_statement tB condB insB tgtB \<and>
          cond_expr condB = Some (ERef (fst (target_of tgtA)) (snd (target_of tgtA))) \<and>
          run_networks before
             ((snd (snd (loadCode (Networks nets) s)))\<lparr>RuntimeCounter := RuntimeCounter s + 1\<rparr>) = (None, s1) \<and>
          eval_expr eA s1 = Inr vA \<and>
          length (elems (get_bank (fst (target_of tgtA)) s1)) \<le> 4294967295 \<longrightarrow>
            SPSRuntime (snd (snd (loadCode (Networks nets) s))) =
              (case run_networks after
                      (statement_effect insB tgtB
                         (value_after insA vA
                            (arr_get (get_bank (fst (target_of tgtA)) s1) (snd (target_of tgtA))))
                         (statement_effect insA tgtA vA s1)) of
                 (None, s2) \<Rightarrow> (None, s2\<lparr>this_dataReady := Some (JBool True)\<rparr>)
               | (Some x, s2) \<Rightarrow> (Some x, s2)))"
proof -
  have lexes: "list_all (\<lambda>t. fst (generateCodeStructure t) \<noteq> None) nets"
    and news: "list_all (\<lambda>t. isNewBlock (gen_run (net_cmds t))) nets"
    using assms(1) by (simp_all add: list_all_iff compiles_alone_def)
  have ca: "acc_commands (load_networks nets) = concat (map net_cmds nets)"
    "acc_invalid (load_networks nets) = False"
    using foldl_load_network_ok[OF lexes, of "\<lparr>acc_commands = [], acc_invalid = False, acc_errors = []\<rparr>"]
    by (simp_all add: load_networks_def)
  obtain t ts where nets: "nets = t # ts" using assms(2) by (cases nets) auto
  with lexes have "fst (generateCodeStructure t) \<noteq> None" by simp
  from net_cmds_snoc[OF this] have ne: "concat (map net_cmds nets) \<noteq> []" using nets by auto
  have js: "fst (generateJSCode (concat (map net_cmds nets))) = concat (map net_code nets)"
    using gen_run_concat[OF news] by (simp add: generateJSCode_def)
  have l: "loadCode (Networks nets) s =
      (0, acc_errors (load_networks nets) @ snd (generateJSCode (concat (map net_cmds nets))),
       s\<lparr>this_codeInput := Some (Networks nets), SPSCode := Some (concat (map net_code nets))\<rparr>)"
    using ca ne js by (simp add: loadCode_def codeArray_of_def)
  have rc: "run_code (concat (map net_code nets)) s' = run_networks nets s'" for s'
    using run_code_parses[OF parses_concat[OF assms(1)]] run_networks_exec[OF assms(1)] by simp
  have scan: "SPSRuntime (snd (snd (loadCode (Networks nets) s))) =
           (case run_networks nets
                   ((snd (snd (loadCode (Networks nets) s)))\<lparr>RuntimeCounter := RuntimeCounter s + 1\<rparr>) of
              (None, s2) \<Rightarrow> (None, s2\<lparr>this_dataReady := Some (JBool True)\<rparr>)
            | (Some x, s2) \<Rightarrow> (Some x, s2))"
    using rc l by (simp add: SPSRuntime_def Let_def)
  have seen: "run_networks nets s0 =
      run_networks after
        (statement_effect insB tgtB
           (value_after insA vA (arr_get (get_bank (fst (target_of tgtA)) s1) (snd (target_of tgtA))))
           (statement_effect insA tgtA vA s1))"
    if n: "nets = before @ [tA, tB] @ after"
      and a: "one_statement tA condA insA tgtA" "cond_expr condA = Some eA"
      and b: "one_statement tB condB insB tgtB"
        "cond_expr condB = Some (ERef (fst (target_of tgtA)) (snd (target_of tgtA)))"
      and r: "run_networks before s0 = (None, s1)" "eval_expr eA s1 = Inr vA"
      and len: "length (elems (get_bank (fst (target_of tgtA)) s1)) \<le> 4294967295"
    for s0
  proof -
    have ra: "run_code (net_code tA) s1 = (None, statement_effect insA tgtA vA s1)"
      using one_statement_run[OF a r(2)] .
    have "eval_expr (ERef (fst (target_of tgtA)) (snd (target_of tgtA))) (statement_effect insA tgtA vA s1) =
        Inr (value_after insA vA (arr_get (get_bank (fst (target_of tgtA)) s1) (snd (target_of tgtA))))"
      using value_after_effect[OF len, of insA vA] by simp
    from one_statement_run[OF b this]
    have rb: "run_code (net_code tB) (statement_effect insA tgtA vA s1) =
        (None, statement_effect insB tgtB
           (value_after insA vA (arr_get (get_bank (fst (target_of tgtA)) s1) (snd (target_of tgtA))))
           (statement_effect insA tgtA vA s1))" .
    show ?thesis unfolding n using r(1) ra rb by (simp add: run_networks_append)
  qed
  have c1: "fst (loadCode (Networks nets) s) = 0"
    and c2: "SPSCode (snd (snd (loadCode (Networks nets) s))) = Some (concat (map net_code nets))"
    using l by simp_all
  have c4: "run_networks nets s' = exec_stmts (concat (map net_prog nets)) s'"
    using run_networks_exec[OF assms(1)] .
  have c5: "nets = before @ [tA, tB] @ after \<and>
          one_statement tA condA insA tgtA \<and> cond_expr condA = Some eA \<and>
          one_statement tB condB insB tgtB \<and>
          cond_expr condB = Some (ERef (fst (target_of tgtA)) (snd (target_of tgtA))) \<and>
          run_networks before
             ((snd (snd (loadCode (Networks nets) s)))\<lparr>RuntimeCounter := RuntimeCounter s + 1\<rparr>) = (None, s1) \<and>
          eval_expr eA s1 = Inr vA \<and>
          length (elems (get_bank (fst (target_of tgtA)) s1)) \<le> 4294967295 \<longrightarrow>
            SPSRuntime (snd (snd (loadCode (Networks nets) s))) =
              (case run_networks after
                      (statement_effect insB tgtB
                         (value_after insA vA
                            (arr_get (get_bank (fst (target_of tgtA)) s1) (snd (target_of tgtA))))
                         (statement_effect insA tgtA vA s1)) of
                 (None, s2) \<Rightarrow> (None, s2\<lparr>this_dataReady := Some (JBool True)\<rparr>)
               | (Some x, s2) \<Rightarrow> (Some x, s2))"
  proof (intro impI, elim conjE)
    assume h: "nets = before @ [tA, tB] @ after"
      "one_statement tA condA insA tgtA" "cond_expr condA = Some eA"
      "one_statement tB condB insB tgtB"
      "cond_expr condB = Some (ERef (fst (target_of tgtA)) (snd (target_of tgtA)))"
      "run_networks before
         ((snd (snd (loadCode (Networks nets) s)))\<lparr>RuntimeCounter := RuntimeCounter s + 1\<rparr>) = (None, s1)"
      "eval_expr eA s1 = Inr vA"
      "length (elems (get_bank (fst (target_of tgtA)) s1)) \<le> 4294967295"
    from seen[OF h] scan show "SPSRuntime (snd (snd (loadCode (Networks nets) s))) =
              (case run_networks after
                      (statement_effect insB tgtB
                         (value_after insA vA
                            (arr_get (get_bank (fst (target_of tgtA)) s1) (snd (target_of tgtA))))
                         (statement_effect insA tgtA vA s1)) of
                 (None, s2) \<Rightarrow> (None, s2\<lparr>this_dataReady := Some (JBool True)\<rparr>)
               | (Some x, s2) \<Rightarrow> (Some x, s2))" by simp
  qed
  from c1 c2 scan c4 c5 show ?thesis by (intro conjI)
qed

theorem C5_networks_run_in_order_witness:
  "list_all compiles_alone ex_nets \<and> ex_nets \<noteq> [] \<and> list_all exact_operands ex_nets \<and>
   ex_nets = [] @ [''U E1 S M1'', ''U M1 = A1''] @ [] \<and>
   one_statement ''U E1 S M1'' ex_condA ex_insA ex_tgtA \<and> cond_expr ex_condA = Some (ERef BankE 0) \<and>
   one_statement ''U M1 = A1'' ex_condB ex_insB ex_tgtB \<and>
   cond_expr ex_condB = Some (ERef (fst (target_of ex_tgtA)) (snd (target_of ex_tgtA))) \<and>
   fst (loadCode (Networks ex_nets) ex_on) = 0 \<and>
   eval_expr (ERef BankE 0) (ex_loaded_on\<lparr>RuntimeCounter := 1\<rparr>) = Inr (JNum 1) \<and>
   SPSRuntime ex_loaded_on =
     (None, ex_loaded_on\<lparr>RuntimeCounter := 1,
                         M := \<lparr>elems = [JBool True, JNum 0], props = []\<rparr>,
                         A := \<lparr>elems = [JBool True, JNum 0], props = []\<rparr>,
                         this_dataReady := Some (JBool True)\<rparr>) \<and>
   fst (loadCode (Networks ex_nets) ex_off) = 0 \<and>
   eval_expr (ERef BankE 0) (ex_loaded_off\<lparr>RuntimeCounter := 1\<rparr>) = Inr (JNum 0) \<and>
   SPSRuntime ex_loaded_off =
     (None, ex_loaded_off\<lparr>RuntimeCounter := 1,
                          A := \<lparr>elems = [JBool False, JNum 0], props = []\<rparr>,
                          this_dataReady := Some (JBool True)\<rparr>)"
proof -
  have h1: "list_all compiles_alone ex_nets" by code_simp
  have h2: "ex_nets \<noteq> []" by code_simp
  have h3: "list_all exact_operands ex_nets" by code_simp
  have n: "ex_nets = [] @ [''U E1 S M1'', ''U M1 = A1''] @ []" by code_simp
  have a: "one_statement ''U E1 S M1'' ex_condA ex_insA ex_tgtA" by code_simp
  have ea: "cond_expr ex_condA = Some (ERef BankE 0)" by code_simp
  have b: "one_statement ''U M1 = A1'' ex_condB ex_insB ex_tgtB" by code_simp
  have eb: "cond_expr ex_condB = Some (ERef (fst (target_of ex_tgtA)) (snd (target_of ex_tgtA)))"
    by code_simp
  have rc: "RuntimeCounter ex_on = 0" "RuntimeCounter ex_off = 0" by code_simp+
  have r1: "run_networks [] (ex_loaded_on\<lparr>RuntimeCounter := RuntimeCounter ex_on + 1\<rparr>) =
      (None, ex_loaded_on\<lparr>RuntimeCounter := 1\<rparr>)" by (simp add: rc)
  have r0: "run_networks [] (ex_loaded_off\<lparr>RuntimeCounter := RuntimeCounter ex_off + 1\<rparr>) =
      (None, ex_loaded_off\<lparr>RuntimeCounter := 1\<rparr>)" by (simp add: rc)
  have v1: "eval_expr (ERef BankE 0) (ex_loaded_on\<lparr>RuntimeCounter := 1\<rparr>) = Inr (JNum 1)" by code_simp
  have v0: "eval_expr (ERef BankE 0) (ex_loaded_off\<lparr>RuntimeCounter := 1\<rparr>) = Inr (JNum 0)" by code_simp
  have "length (elems (get_bank (fst (target_of ex_tgtA)) (ex_loaded_on\<lparr>RuntimeCounter := 1\<rparr>))) = 2"
    "length (elems (get_bank (fst (target_of ex_tgtA)) (ex_loaded_off\<lparr>RuntimeCounter := 1\<rparr>))) = 2"
    by code_simp+
  then have l1: "length (elems (get_bank (fst (target_of ex_tgtA)) (ex_loaded_on\<lparr>RuntimeCounter := 1\<rparr>))) \<le> 4294967295"
    and l0: "length (elems (get_bank (fst (target_of ex_tgtA)) (ex_loaded_off\<lparr>RuntimeCounter := 1\<rparr>))) \<le> 4294967295"
    by simp_all
  have e1: "(case run_networks []
                (statement_effect ex_insB ex_tgtB
                   (value_after ex_insA (JNum 1)
                      (arr_get (get_bank (fst (target_of ex_tgtA)) (ex_loaded_on\<lparr>RuntimeCounter := 1\<rparr>))
                         (snd (target_of ex_tgtA))))
                   (statement_effect ex_insA ex_tgtA (JNum 1) (ex_loaded_on\<lparr>RuntimeCounter := 1\<rparr>))) of
              (None, s2) \<Rightarrow> (None, s2\<lparr>this_dataReady := Some (JBool True)\<rparr>)
            | (Some x, s2) \<Rightarrow> (Some x, s2)) =
     (None, ex_loaded_on\<lparr>RuntimeCounter := 1,
                         M := \<lparr>elems = [JBool True, JNum 0], props = []\<rparr>,
                         A := \<lparr>elems = [JBool True, JNum 0], props = []\<rparr>,
                         this_dataReady := Some (JBool True)\<rparr>)" by code_simp
  have e0: "(case run_networks []
                (statement_effect ex_insB ex_tgtB
                   (value_after ex_insA (JNum 0)
                      (arr_get (get_bank (fst (target_of ex_tgtA)) (ex_loaded_off\<lparr>RuntimeCounter := 1\<rparr>))
                         (snd (target_of ex_tgtA))))
                   (statement_effect ex_insA ex_tgtA (JNum 0) (ex_loaded_off\<lparr>RuntimeCounter := 1\<rparr>))) of
              (None, s2) \<Rightarrow> (None, s2\<lparr>this_dataReady := Some (JBool True)\<rparr>)
            | (Some x, s2) \<Rightarrow> (Some x, s2)) =
     (None, ex_loaded_off\<lparr>RuntimeCounter := 1,
                          A := \<lparr>elems = [JBool False, JNum 0], props = []\<rparr>,
                          this_dataReady := Some (JBool True)\<rparr>)" by code_simp
  note on = C5_networks_run_in_order[OF h1 h2 h3, where s = ex_on and before = "[]" and after = "[]"
      and tA = "''U E1 S M1''" and tB = "''U M1 = A1''" and condA = ex_condA and insA = ex_insA
      and tgtA = ex_tgtA and eA = "ERef BankE 0" and condB = ex_condB and insB = ex_insB
      and tgtB = ex_tgtB and ?s1.0 = "ex_loaded_on\<lparr>RuntimeCounter := 1\<rparr>" and vA = "JNum 1" and s' = ex_on,
      folded ex_loaded_on_def]
  note off = C5_networks_run_in_order[OF h1 h2 h3, where s = ex_off and before = "[]" and after = "[]"
      and tA = "''U E1 S M1''" and tB = "''U M1 = A1''" and condA = ex_condA and insA = ex_insA
      and tgtA = ex_tgtA and eA = "ERef BankE 0" and condB = ex_condB and insB = ex_insB
      and tgtB = ex_tgtB and ?s1.0 = "ex_loaded_off\<lparr>RuntimeCounter := 1\<rparr>" and vA = "JNum 0" and s' = ex_off,
      folded ex_loaded_off_def]
  have s1: "fst (loadCode (Networks ex_nets) ex_on) = 0"
    using on by (rule conjunct1)
  have "SPSRuntime ex_loaded_on =
      (case run_networks []
                (statement_effect ex_insB ex_tgtB
                   (value_after ex_insA (JNum 1)
                      (arr_get (get_bank (fst (target_of ex_tgtA)) (ex_loaded_on\<lparr>RuntimeCounter := 1\<rparr>))
                         (snd (target_of ex_tgtA))))
                   (statement_effect ex_insA ex_tgtA (JNum 1) (ex_loaded_on\<lparr>RuntimeCounter := 1\<rparr>))) of
              (None, s2) \<Rightarrow> (None, s2\<lparr>this_dataReady := Some (JBool True)\<rparr>)
            | (Some x, s2) \<Rightarrow> (Some x, s2))"
    using on n a ea b eb r1 v1 l1 by blast
  then have t1: "SPSRuntime ex_loaded_on =
     (None, ex_loaded_on\<lparr>RuntimeCounter := 1,
                         M := \<lparr>elems = [JBool True, JNum 0], props = []\<rparr>,
                         A := \<lparr>elems = [JBool True, JNum 0], props = []\<rparr>,
                         this_dataReady := Some (JBool True)\<rparr>)"
    by (simp only: e1)
  have s0: "fst (loadCode (Networks ex_nets) ex_off) = 0"
    using off by (rule conjunct1)
  have "SPSRuntime ex_loaded_off =
      (case run_networks []
                (statement_effect ex_insB ex_tgtB
                   (value_after ex_insA (JNum 0)
                      (arr_get (get_bank (fst (target_of ex_tgtA)) (ex_loaded_off\<lparr>RuntimeCounter := 1\<rparr>))
                         (snd (target_of ex_tgtA))))
                   (statement_effect ex_insA ex_tgtA (JNum 0) (ex_loaded_off\<lparr>RuntimeCounter := 1\<rparr>))) of
              (None, s2) \<Rightarrow> (None, s2\<lparr>this_dataReady := Some (JBool True)\<rparr>)
            | (Some x, s2) \<Rightarrow> (Some x, s2))"
    using off n a ea b eb r0 v0 l0 by blast
  then have t0: "SPSRuntime ex_loaded_off =
     (None, ex_loaded_off\<lparr>RuntimeCounter := 1,
                          A := \<lparr>elems = [JBool False, JNum 0], props = []\<rparr>,
                          this_dataReady := Some (JBool True)\<rparr>)"
    by (simp only: e0)
  from h1 h2 h3 n a ea b eb s1 v1 t1 s0 v0 t0 show ?thesis by (intro conjI)
qed

text \<open>
  C6. A completed scan should leave \<^verbatim>\<open>dataAvailable()\<close> true. The scan of
  \<open>scan_example\<close> completes, writes the output and counts to 1, but sets the public
  property \<^verbatim>\<open>this.dataReady\<close>; the private field that \<^verbatim>\<open>dataAvailable\<close> reads is
  still false.
\<close>

theorem C6_scan_leaves_dataReady_false:
  "fst scan_example = Inr (TheBank BankA) \<and>
   elems (A (snd scan_example)) = [JBool True, JNum 0] \<and>
   getRuntimeCounter (snd scan_example) = 1 \<and>
   this_dataReady (snd scan_example) = Some (JBool True) \<and>
   dataAvailable (snd scan_example) = False"
  by code_simp

section \<open>Operands\<close>

text \<open>
  C8 as stated: in a program that \<^verbatim>\<open>loadCode\<close> accepts, every register access of a scan
  is within its bank. It is not: with two outputs, \<^verbatim>\<open>U E1 = A9\<close> loads without a
  message, its code writes index 8 of the output bank, and the scan completes and
  leaves an output bank of nine elements.
\<close>

theorem C8_counterexample:
  "fst (loadCode (Text ''U E1 = A9'') (SPS_new 2 2 2)) = 0 \<and>
   fst (snd (loadCode (Text ''U E1 = A9'') (SPS_new 2 2 2))) = [] \<and>
   SPSCode ex_oob =
     Some (''if( this.#E[0]) { this.#A[8] = true; } else { this.#A[8] = false; }'' @ [CHR 0x0A] @
           ''; // End of Network'' @ [CHR 0x0A]) \<and>
   \<not> ref_in_bounds ex_oob (BankA, 8) \<and>
   elems (A ex_oob) = [JNum 0, JNum 0] \<and>
   fst (SPSRuntime ex_oob) = None \<and>
   elems (A (snd (SPSRuntime ex_oob))) =
     [JNum 0, JNum 0, JUndefined, JUndefined, JUndefined, JUndefined, JUndefined, JUndefined, JBool True]"
  by code_simp

text \<open>
  C8, amended: an operand the lexer accepts, a bank letter and a number \<open>n\<close> below
  \<open>2^53\<close> (the numbers JavaScript reads and prints exactly), compiles to an access of
  that bank at index \<open>n - 1\<close>, which is at least -1. The lexer checks the shape only:
  the access is in bounds exactly when \<open>n\<close> is at least 1 and at most the size of the
  bank.
\<close>

theorem C8_operand_index:
  assumes "validOperandsRegex (instruction c)"
    and "parseInt (tl (instruction c)) < 2 ^ 53"
  shows "compiled_ref c = Some (target_of c, []) \<and>
         target_of c = (bank_of_char (hd (instruction c)), parseInt (tl (instruction c)) - 1) \<and>
         - 1 \<le> snd (target_of c) \<and>
         ref_in_bounds s (target_of c) =
           (1 \<le> parseInt (tl (instruction c)) \<and>
            parseInt (tl (instruction c)) \<le> int (length (elems (get_bank (fst (target_of c)) s))))"
proof -
  from operand_ref_valid[OF assms(1)] obtain b ds where
    i: "instruction c = b # ds" and t: "target_of c = (bank_of_char b, parseInt ds - 1)" by blast
  have "jslex (operand_ref c @ []) = Some (ref_toks (fst (target_of c)) (snd (target_of c)))"
    using jslex_operand_ref[OF assms(1), of "[]"] by simp
  then have c: "compiled_ref c = Some (target_of c, [])"
    using p_ref_ref_toks[of "fst (target_of c)" "snd (target_of c)" "[]"]
    by (simp add: compiled_ref_def)
  show ?thesis using c i t parseInt_nonneg[of ds]
    by (auto simp: ref_in_bounds_def)
qed

theorem C8_operand_index_witness:
  "validOperandsRegex ''A9'' \<and> parseInt ''9'' < 2 ^ 53 \<and>
   compiled_ref \<lparr>type = 3, instruction = ''A9'', blockNumber = 3\<rparr> = Some ((BankA, 8), []) \<and>
   \<not> ref_in_bounds (SPS_new 2 2 2) (BankA, 8) \<and>
   validOperandsRegex ''E0'' \<and> parseInt ''0'' < 2 ^ 53 \<and>
   compiled_ref \<lparr>type = 3, instruction = ''E0'', blockNumber = 1\<rparr> = Some ((BankE, - 1), []) \<and>
   \<not> ref_in_bounds (SPS_new 2 2 2) (BankE, - 1) \<and>
   validOperandsRegex ''M2'' \<and> parseInt ''2'' < 2 ^ 53 \<and>
   compiled_ref \<lparr>type = 3, instruction = ''M2'', blockNumber = 1\<rparr> = Some ((BankM, 1), []) \<and>
   ref_in_bounds (SPS_new 2 2 2) (BankM, 1)"
proof -
  have h1: "validOperandsRegex (instruction \<lparr>type = 3, instruction = ''A9'', blockNumber = 3\<rparr>)"
    "parseInt (tl (instruction \<lparr>type = 3, instruction = ''A9'', blockNumber = 3\<rparr>)) < 2 ^ 53"
    by code_simp+
  have h2: "validOperandsRegex (instruction \<lparr>type = 3, instruction = ''E0'', blockNumber = 1\<rparr>)"
    "parseInt (tl (instruction \<lparr>type = 3, instruction = ''E0'', blockNumber = 1\<rparr>)) < 2 ^ 53"
    by code_simp+
  have h3: "validOperandsRegex (instruction \<lparr>type = 3, instruction = ''M2'', blockNumber = 1\<rparr>)"
    "parseInt (tl (instruction \<lparr>type = 3, instruction = ''M2'', blockNumber = 1\<rparr>)) < 2 ^ 53"
    by code_simp+
  have t1: "target_of \<lparr>type = 3, instruction = ''A9'', blockNumber = 3\<rparr> = (BankA, 8)" by code_simp
  have t2: "target_of \<lparr>type = 3, instruction = ''E0'', blockNumber = 1\<rparr> = (BankE, - 1)" by code_simp
  have t3: "target_of \<lparr>type = 3, instruction = ''M2'', blockNumber = 1\<rparr> = (BankM, 1)" by code_simp
  have b: "\<not> ref_in_bounds (SPS_new 2 2 2) (BankA, 8)"
    "\<not> ref_in_bounds (SPS_new 2 2 2) (BankE, - 1)"
    "ref_in_bounds (SPS_new 2 2 2) (BankM, 1)" by code_simp+
  from C8_operand_index[OF h1, of "SPS_new 2 2 2"] C8_operand_index[OF h2, of "SPS_new 2 2 2"]
    C8_operand_index[OF h3, of "SPS_new 2 2 2"] h1 h2 h3 t1 t2 t3 b
  show ?thesis by simp
qed

section \<open>Run-state controller and accessors\<close>

text \<open>
  C3. Calling \<^verbatim>\<open>start()\<close> on a stopped controller should arm the periodic scheduler.
  On a new controller it returns 0 and sets the state to Running, but arms nothing:
  \<^verbatim>\<open>#changeSPSState(1)\<close> calls \<^verbatim>\<open>setInterval\<close> only when \<^verbatim>\<open>#runtimeTimer\<close> is already
  set, and no other line sets it. The table of running timers stays empty.
\<close>

theorem C3_start_arms_no_timer:
  "fst (start (SPS_new 64 64 64)) = 0 \<and>
   state (snd (start (SPS_new 64 64 64))) = 1 \<and>
   runtimeTimer (snd (start (SPS_new 64 64 64))) = None \<and>
   host_intervals (snd (start (SPS_new 64 64 64))) = []"
  by (simp add: start_def changeSPSState_def SPS_new_def)

text \<open>
  C7. \<^verbatim>\<open>setFlags\<close> should overwrite the flag bank and return 0. With no global
  binding \<^verbatim>\<open>dataReady\<close> its first line throws; the flag bank is untouched and nothing
  is returned.
\<close>

theorem C7_setFlags_throws:
  "setFlags [JNum 1, JNum 0] (SPS_new 2 2 2) = (Inl ReferenceError, SPS_new 2 2 2)"
  by (simp add: setFlags_def SPS_new_def)

text \<open>
  C9. \<^verbatim>\<open>getInputs\<close> should return as many values as the input bank holds. Its loop
  runs to 8, whatever the size of the bank: with 64 inputs it returns 8 values.
\<close>

theorem C9_getInputs_eight:
  "length (deref (getInputs (SPS_new 64 64 64)) (SPS_new 64 64 64)) = 8 \<and>
   length (elems (E (SPS_new 64 64 64))) = 64"
  by (simp add: getInputs_def SPS_new_def new_Array_fill0_def)

text \<open>
  C10. \<^verbatim>\<open>setCycleTime\<close> should accept exactly the delays from 10 to 1000. The test
  \<^verbatim>\<open>delay > 10 || delay < 1000\<close> holds for every number: a delay of 5 is accepted
  and stored.
\<close>

theorem C10_setCycleTime_accepts_5:
  "setCycleTime 5 (SPS_new 64 64 64) = (0, (SPS_new 64 64 64)\<lparr>SPSCycleTime := 5\<rparr>)"
  by (simp add: setCycleTime_def)

end
